theory Spec2Isabelle
  imports Complex_Main "HOL-Library.Word"
begin

section \<open>Regret tables (Node.hpp, Node.cpp)\<close>

text \<open>
  A \<open>Node\<close> is the regret table of one information set. The C++ class owns four heap
  arrays of \<open>double\<close> and an action count stored in a \<open>uint8_t\<close>. The arrays are lists
  here, the action count is an 8-bit word, and a \<open>double\<close> is a real number: rounding,
  infinities and NaN are outside this development.
\<close>

record Node =
  mActionNum :: "8 word"
  mRegretSum :: "real list"
  mCurrentStrategy :: "real list"
  mStrategySum :: "real list"
  mAverageStrategy :: "real list"
  alreadyCalculated :: bool
  strategyNeedsUpdate :: bool

text \<open>
  \<open>Node::Node(actionNum)\<close>: the arrays are allocated and filled for the \<open>int\<close> argument,
  while the member \<open>mActionNum\<close> keeps its low eight bits.
\<close>

definition newNode :: "nat \<Rightarrow> Node" where
  "newNode actionNum =
     \<lparr> mActionNum = of_nat actionNum,
       mRegretSum = replicate actionNum 0,
       mCurrentStrategy = replicate actionNum (1 / real actionNum),
       mStrategySum = replicate actionNum 0,
       mAverageStrategy = replicate actionNum 0,
       alreadyCalculated = False,
       strategyNeedsUpdate = False \<rparr>"

definition strategy :: "Node \<Rightarrow> real list" where
  "strategy n = mCurrentStrategy n"

definition actionNum_of :: "Node \<Rightarrow> nat" where
  "actionNum_of n = unat (mActionNum n)"

text \<open>\<open>Node::strategySum(strategy, realizationWeight)\<close>.\<close>

definition strategySum :: "Node \<Rightarrow> real list \<Rightarrow> real \<Rightarrow> Node" where
  "strategySum n strat realizationWeight =
     n\<lparr> mStrategySum :=
          fold (\<lambda>a ss. ss[a := ss ! a + realizationWeight * strat ! a])
               [0..<actionNum_of n] (mStrategySum n),
        alreadyCalculated := False \<rparr>"

text \<open>
  \<open>Node::updateStrategy()\<close>. The first loop writes the positive part of every regret
  into the strategy array and adds what it wrote to \<open>normalizingSum\<close>; the second loop
  divides, or writes \<open>1 / mActionNum\<close>. The function returns without touching
  \<open>strategyNeedsUpdate\<close>.
\<close>

definition positivePart_loop :: "real list \<Rightarrow> nat \<Rightarrow> real list \<Rightarrow> real list \<times> real" where
  "positivePart_loop regrets A cs0 =
     fold (\<lambda>a (cs, normalizingSum).
             let cs' = cs[a := (if regrets ! a > 0 then regrets ! a else 0)]
             in (cs', normalizingSum + cs' ! a))
          [0..<A] (cs0, 0)"

definition normalize_loop :: "real \<Rightarrow> nat \<Rightarrow> real list \<Rightarrow> real list" where
  "normalize_loop normalizingSum A cs0 =
     fold (\<lambda>a cs. if normalizingSum > 0 then cs[a := cs ! a / normalizingSum]
                   else cs[a := 1 / real A])
          [0..<A] cs0"

definition updateStrategy :: "Node \<Rightarrow> Node" where
  "updateStrategy n =
     (if \<not> strategyNeedsUpdate n then n
      else
        let (cs, normalizingSum) =
              positivePart_loop (mRegretSum n) (actionNum_of n) (mCurrentStrategy n)
        in n\<lparr> mCurrentStrategy := normalize_loop normalizingSum (actionNum_of n) cs \<rparr>)"

text \<open>The two overloads of \<open>Node::regretSum\<close>: the getter and the setter.\<close>

definition regretSum :: "Node \<Rightarrow> nat \<Rightarrow> real" where
  "regretSum n chooseAction = mRegretSum n ! chooseAction"

definition regretSum_set :: "Node \<Rightarrow> nat \<Rightarrow> real \<Rightarrow> Node" where
  "regretSum_set n chooseAction v =
     n\<lparr> mRegretSum := (mRegretSum n)[chooseAction := v], strategyNeedsUpdate := True \<rparr>"

text \<open>\<open>Node::calcAverageStrategy()\<close> and the getter \<open>Node::averageStrategy()\<close>, which
  returns the array together with the node it may have recomputed.\<close>

definition calcAverageStrategy :: "Node \<Rightarrow> Node" where
  "calcAverageStrategy n =
     (if alreadyCalculated n then n
      else
        let A = actionNum_of n;
            av0 = fold (\<lambda>a av. av[a := 0]) [0..<A] (mAverageStrategy n);
            normalizingSum = fold (\<lambda>a s. s + mStrategySum n ! a) [0..<A] 0;
            av = fold (\<lambda>a av. if normalizingSum > 0
                                then av[a := mStrategySum n ! a / normalizingSum]
                                else av[a := 1 / real A])
                      [0..<A] av0
        in n\<lparr> mAverageStrategy := av, alreadyCalculated := True \<rparr>)"

definition averageStrategy :: "Node \<Rightarrow> real list \<times> Node" where
  "averageStrategy n =
     (let n' = (if \<not> alreadyCalculated n then calcAverageStrategy n else n)
      in (mAverageStrategy n', n'))"

text \<open>
  \<open>Node::save\<close> copies \<open>mActionNum\<close> cells of the average-strategy array into a vector;
  \<open>Node::load\<close> takes the action count from the length of the vector it reads (kept in
  the \<open>uint8_t\<close>), replaces the average-strategy array by the vector's entries and sets
  both flags.
\<close>

definition save :: "Node \<Rightarrow> real list" where
  "save n = map (\<lambda>i. mAverageStrategy n ! i) [0..<actionNum_of n]"

definition load :: "Node \<Rightarrow> real list \<Rightarrow> Node" where
  "load n vec =
     n\<lparr> mActionNum := of_nat (length vec),
        mAverageStrategy := map (\<lambda>i. vec ! i) [0..<length vec],
        alreadyCalculated := True,
        strategyNeedsUpdate := False \<rparr>"

section \<open>Game states\<close>

text \<open>
  The trainer is a template over the game class and uses it through its \<open>const\<close> queries
  and through \<open>takeAction\<close> on a copy. A game state is therefore the finite tree of what
  the queries answer and of the states the actions lead to: \<open>actionNum\<close> is the number
  of successors and \<open>takeAction\<close> selects one. \<open>chanceProbability\<close> belongs to the state
  that a chance action produced, and every state answers \<open>currentPlayer\<close>, also a
  terminal one.
\<close>

datatype game = Game (isGameOver: bool) (isChanceNode: bool) (currentPlayer: nat)
  (infoSetStr: string) (chanceProbability: real) (payoffs: "real list") (successors: "game list")

definition payoff :: "game \<Rightarrow> nat \<Rightarrow> real" where
  "payoff g playerIndex = payoffs g ! playerIndex"

definition actionNum :: "game \<Rightarrow> nat" where
  "actionNum g = length (successors g)"

definition takeAction :: "game \<Rightarrow> nat \<Rightarrow> game" where
  "takeAction g chooseAction = successors g ! chooseAction"

section \<open>Errors and loops\<close>

text \<open>
  \<open>IncompatibleMode\<close> is the failed \<open>assert\<close> of the two sampling solvers,
  \<open>OutOfRange\<close> the \<open>std::out_of_range\<close> thrown by \<open>unordered_map::at\<close>, \<open>BadMode\<close> the
  \<open>assert(false)\<close> of \<open>train\<close>. \<open>IllFormed\<close> stands for a sampled action index that the
  state has no successor for; \<open>std::discrete_distribution\<close> over the \<open>actionNum\<close> weights
  of a state with at least one action never produces one.
\<close>

datatype error = IncompatibleMode | OutOfRange | IllFormed | BadMode

text \<open>A \<open>for (a = 0; a < n; ++a)\<close> loop whose body may throw: the first error ends it.\<close>

definition for_loop :: "nat \<Rightarrow> (nat \<Rightarrow> 's \<Rightarrow> 'e + 's) \<Rightarrow> 's \<Rightarrow> 'e + 's" where
  "for_loop n body s0 =
     fold (\<lambda>a acc. case acc of Inl e \<Rightarrow> Inl e | Inr s \<Rightarrow> body a s) [0..<n] (Inr s0)"

lemma for_loop_cong [fundef_cong]:
  assumes "n = m" and "s = t" and "\<And>a u. a < m \<Longrightarrow> f a u = g a u"
  shows "for_loop n f s = for_loop m g t"
proof -
  have "\<And>acc. a \<in> set [0..<m] \<Longrightarrow>
          (case acc of Inl e \<Rightarrow> Inl e | Inr u \<Rightarrow> f a u) = (case acc of Inl e \<Rightarrow> Inl e | Inr u \<Rightarrow> g a u)" for a
    using assms(3) by (auto split: sum.splits)
  then have "fold (\<lambda>a acc. case acc of Inl e \<Rightarrow> Inl e | Inr u \<Rightarrow> f a u) [0..<m] (Inr t)
           = fold (\<lambda>a acc. case acc of Inl e \<Rightarrow> Inl e | Inr u \<Rightarrow> g a u) [0..<m] (Inr t)"
    by (intro fold_cong) auto
  then show ?thesis using assms(1,2) by (simp add: for_loop_def)
qed

lemma size_takeAction:
  assumes "a < actionNum g"
  shows "size (takeAction g a) < size g"
proof -
  have a: "a < length (successors g)" using assms by (simp add: actionNum_def)
  have "size (successors g ! a) < Suc (size_list size (successors g))"
    using size_list_estimation'[OF nth_mem[OF a], of "size (successors g ! a)" size] by simp
  then show ?thesis by (cases g) (simp add: takeAction_def)
qed

section \<open>The trainer (Trainer.hpp, Trainer.cpp)\<close>

text \<open>
  The members of \<open>Trainer\<close> that the solvers read or write. The random generator is a
  \<open>std::mt19937\<close>; its state is a type parameter, and drawing from a
  \<open>std::discrete_distribution\<close> over a list of weights is a parameter \<open>D\<close> of the
  sampling solvers that returns the index and the next generator state.
\<close>

record 'r trainer =
  randomGenerator :: 'r
  mNodeMap :: "string \<rightharpoonup> Node"
  mNodeTouchedCnt :: "64 word"
  mGame :: game
  mModeStr :: string
  mFixedStrategies :: "(string \<rightharpoonup> Node) list"
  mUpdate :: "bool list"

type_synonym 'r sampler = "real list \<Rightarrow> 'r \<Rightarrow> nat \<times> 'r"

text \<open>\<open>Node *node = mNodeMap[infoSet]; if (node == nullptr) { node = new Node(actionNum); ... }\<close>\<close>

definition fetchNode :: "'r trainer \<Rightarrow> string \<Rightarrow> nat \<Rightarrow> 'r trainer" where
  "fetchNode tr infoSet n =
     (case mNodeMap tr infoSet of
        Some node \<Rightarrow> tr
      | None \<Rightarrow> tr\<lparr> mNodeMap := (mNodeMap tr)(infoSet \<mapsto> newNode n) \<rparr>)"

text \<open>
  \<open>node\<close> and \<open>strategy\<close> are pointers into the node map: every read goes to the table as
  it is at that moment, every write changes the table in the map.
\<close>

definition node_at :: "'r trainer \<Rightarrow> string \<Rightarrow> Node" where
  "node_at tr infoSet = the (mNodeMap tr infoSet)"

definition node_upd :: "'r trainer \<Rightarrow> string \<Rightarrow> (Node \<Rightarrow> Node) \<Rightarrow> 'r trainer" where
  "node_upd tr infoSet f = tr\<lparr> mNodeMap := (mNodeMap tr)(infoSet \<mapsto> f (node_at tr infoSet)) \<rparr>"

text \<open>The regret loop shared by the solvers:
  \<open>node->regretSum(a, node->regretSum(a) + regret)\<close> for every action, where \<open>regret\<close>
  may read the table through the \<open>strategy\<close> pointer.\<close>

definition addRegrets :: "'r trainer \<Rightarrow> string \<Rightarrow> nat \<Rightarrow> (Node \<Rightarrow> nat \<Rightarrow> real) \<Rightarrow> 'r trainer" where
  "addRegrets tr infoSet n regret =
     fold (\<lambda>a t. node_upd t infoSet
                   (\<lambda>node. regretSum_set node a (regretSum node a + regret node a)))
          [0..<n] tr"

definition touch :: "'r trainer \<Rightarrow> 'r trainer" where
  "touch tr = tr\<lparr> mNodeTouchedCnt := mNodeTouchedCnt tr + 1 \<rparr>"

text \<open>\<open>mFixedStrategies[player].at(infoSet)->averageStrategy()\<close>.\<close>

definition fixedAverage :: "'r trainer \<Rightarrow> nat \<Rightarrow> string \<Rightarrow> error + real list \<times> 'r trainer" where
  "fixedAverage tr player infoSet =
     (case (mFixedStrategies tr ! player) infoSet of
        None \<Rightarrow> Inl OutOfRange
      | Some node \<Rightarrow>
          (let (av, node') = averageStrategy node
           in Inr (av, tr\<lparr> mFixedStrategies := (mFixedStrategies tr)
                            [player := (mFixedStrategies tr ! player)(infoSet \<mapsto> node')] \<rparr>)))"

subsection \<open>Vanilla CFR\<close>

function CFR :: "game \<Rightarrow> nat \<Rightarrow> real \<Rightarrow> real \<Rightarrow> 'r trainer \<Rightarrow> error + real \<times> 'r trainer" where
  "CFR game playerIndex p_i p_o tr0 =
    (let tr = touch tr0 in
     if isGameOver game then Inr (payoff game playerIndex, tr)
     else if isChanceNode game then
       for_loop (actionNum game)
         (\<lambda>a (nodeUtil, t).
            let game_cp = takeAction game a;
                chanceProb = chanceProbability game_cp
            in case CFR game_cp playerIndex p_i (p_o * chanceProb) t of
                 Inl e \<Rightarrow> Inl e
               | Inr (u, t') \<Rightarrow> Inr (nodeUtil + chanceProb * u, t'))
         (0, tr)
     else
       let infoSet = infoSetStr game; player = currentPlayer game in
       if \<not> mUpdate tr ! player then
         for_loop (actionNum game)
           (\<lambda>a (nodeUtil, t).
              let game_cp = takeAction game a
              in case fixedAverage t player infoSet of
                   Inl e \<Rightarrow> Inl e
                 | Inr (av, t1) \<Rightarrow>
                     (let chanceProb = av ! a
                      in case CFR game_cp playerIndex p_i (p_o * chanceProb) t1 of
                           Inl e \<Rightarrow> Inl e
                         | Inr (u, t') \<Rightarrow> Inr (nodeUtil + chanceProb * u, t')))
           (0, tr)
       else
         case for_loop (actionNum game)
                (\<lambda>a (utils, nodeUtil, t).
                   let game_cp = takeAction game a
                   in case (if player = playerIndex
                            then CFR game_cp playerIndex (p_i * strategy (node_at t infoSet) ! a) p_o t
                            else CFR game_cp playerIndex p_i (p_o * strategy (node_at t infoSet) ! a) t) of
                        Inl e \<Rightarrow> Inl e
                      | Inr (u, t') \<Rightarrow>
                          Inr (utils @ [u], nodeUtil + strategy (node_at t' infoSet) ! a * u, t'))
                ([], 0, fetchNode tr infoSet (actionNum game)) of
           Inl e \<Rightarrow> Inl e
         | Inr (utils, nodeUtil, tr2) \<Rightarrow>
             if player = playerIndex then
               let tr3 = addRegrets tr2 infoSet (actionNum game) (\<lambda>node a. p_o * (utils ! a - nodeUtil))
               in Inr (nodeUtil, node_upd tr3 infoSet (\<lambda>node. strategySum node (strategy node) p_i))
             else Inr (nodeUtil, tr2))"
  by pat_completeness auto
termination
  by (relation "measure (\<lambda>(g, _). size g)") (auto simp: size_takeAction)

declare CFR.simps [simp del]

subsection \<open>Chance-sampling CFR\<close>

function chanceSamplingCFR ::
  "'r sampler \<Rightarrow> game \<Rightarrow> nat \<Rightarrow> real \<Rightarrow> real \<Rightarrow> 'r trainer \<Rightarrow> error + real \<times> 'r trainer" where
  "chanceSamplingCFR D game playerIndex p_i p_o tr0 =
    (let tr = touch tr0 in
     if isGameOver game then Inr (payoff game playerIndex, tr)
     else
       let infoSet = infoSetStr game; player = currentPlayer game in
       if \<not> mUpdate tr ! player then
         (case fixedAverage tr player infoSet of
            Inl e \<Rightarrow> Inl e
          | Inr (av, t1) \<Rightarrow>
              (let (chooseAction, rng) =
                     D (map (\<lambda>a. av ! a) [0..<actionNum game]) (randomGenerator t1)
               in if chooseAction < actionNum game
                  then chanceSamplingCFR D (takeAction game chooseAction) playerIndex p_i p_o
                         (t1\<lparr> randomGenerator := rng \<rparr>)
                  else Inl IllFormed))
       else
         case for_loop (actionNum game)
                (\<lambda>a (utils, nodeUtil, t).
                   let game_cp = takeAction game a
                   in case (if player = playerIndex
                            then chanceSamplingCFR D game_cp playerIndex
                                   (p_i * strategy (node_at t infoSet) ! a) p_o t
                            else chanceSamplingCFR D game_cp playerIndex
                                   p_i (p_o * strategy (node_at t infoSet) ! a) t) of
                        Inl e \<Rightarrow> Inl e
                      | Inr (u, t') \<Rightarrow>
                          Inr (utils @ [u], nodeUtil + strategy (node_at t' infoSet) ! a * u, t'))
                ([], 0, fetchNode tr infoSet (actionNum game)) of
           Inl e \<Rightarrow> Inl e
         | Inr (utils, nodeUtil, tr2) \<Rightarrow>
             if player = playerIndex then
               let tr3 = addRegrets tr2 infoSet (actionNum game)
                           (\<lambda>node a. p_o * (utils ! a - nodeUtil))
               in Inr (nodeUtil, node_upd tr3 infoSet (\<lambda>node. strategySum node (strategy node) p_i))
             else Inr (nodeUtil, tr2))"
  by pat_completeness auto
termination
  by (relation "measure (\<lambda>(D, g, _). size g)") (auto simp: size_takeAction)

declare chanceSamplingCFR.simps [simp del]

subsection \<open>External-sampling CFR\<close>

function externalSamplingCFR ::
  "'r sampler \<Rightarrow> game \<Rightarrow> nat \<Rightarrow> 'r trainer \<Rightarrow> error + real \<times> 'r trainer" where
  "externalSamplingCFR D game playerIndex tr0 =
    (let tr = touch tr0 in
     if isGameOver game then Inr (payoff game playerIndex, tr)
     else
       let infoSet = infoSetStr game; player = currentPlayer game in
       if \<not> mUpdate tr ! player then Inl IncompatibleMode
       else
         let tr1 = node_upd (fetchNode tr infoSet (actionNum game)) infoSet updateStrategy in
         if player \<noteq> playerIndex then
           (let (chooseAction, rng) =
                  D (map (\<lambda>a. strategy (node_at tr1 infoSet) ! a) [0..<actionNum game])
                    (randomGenerator tr1)
            in if chooseAction < actionNum game
               then (case externalSamplingCFR D (takeAction game chooseAction) playerIndex
                            (tr1\<lparr> randomGenerator := rng \<rparr>) of
                       Inl e \<Rightarrow> Inl e
                     | Inr (util, tr2) \<Rightarrow>
                         Inr (util, node_upd tr2 infoSet (\<lambda>node. strategySum node (strategy node) 1)))
               else Inl IllFormed)
         else
           case for_loop (actionNum game)
                  (\<lambda>a (utils, nodeUtil, t).
                     case externalSamplingCFR D (takeAction game a) playerIndex t of
                       Inl e \<Rightarrow> Inl e
                     | Inr (u, t') \<Rightarrow>
                         Inr (utils @ [u], nodeUtil + strategy (node_at t' infoSet) ! a * u, t'))
                  ([], 0, tr1) of
             Inl e \<Rightarrow> Inl e
           | Inr (utils, nodeUtil, tr2) \<Rightarrow>
               Inr (nodeUtil, addRegrets tr2 infoSet (actionNum game)
                                (\<lambda>node a. utils ! a - nodeUtil)))"
  by pat_completeness auto
termination
  by (relation "measure (\<lambda>(D, g, _). size g)") (auto simp: size_takeAction)

declare externalSamplingCFR.simps [simp del]

subsection \<open>Outcome-sampling CFR\<close>

function outcomeSamplingCFR ::
  "'r sampler \<Rightarrow> game \<Rightarrow> nat \<Rightarrow> int \<Rightarrow> real \<Rightarrow> real \<Rightarrow> real \<Rightarrow> 'r trainer
     \<Rightarrow> error + (real \<times> real) \<times> 'r trainer" where
  "outcomeSamplingCFR D game playerIndex iteration p_i p_o s tr0 =
    (let tr = touch tr0 in
     if isGameOver game then Inr ((payoff game playerIndex / s, 1), tr)
     else
       let infoSet = infoSetStr game; player = currentPlayer game in
       if \<not> mUpdate tr ! player then Inl IncompatibleMode
       else
         let tr1 = node_upd (fetchNode tr infoSet (actionNum game)) infoSet updateStrategy;
             epsilon = 6 / 10;
             probability =
               (if player = playerIndex
                then map (\<lambda>a. epsilon / real (actionNum game)
                               + (1 - epsilon) * strategy (node_at tr1 infoSet) ! a)
                         [0..<actionNum game]
                else map (\<lambda>a. strategy (node_at tr1 infoSet) ! a) [0..<actionNum game]);
             (chooseAction, rng) = D probability (randomGenerator tr1)
         in if chooseAction < actionNum game then
              (let newPi = p_i * (if player = playerIndex
                                  then strategy (node_at tr1 infoSet) ! chooseAction else 1);
                   newPo = p_o * (if player = playerIndex
                                  then 1 else strategy (node_at tr1 infoSet) ! chooseAction)
               in case outcomeSamplingCFR D (takeAction game chooseAction) playerIndex iteration
                         newPi newPo (s * probability ! chooseAction)
                         (tr1\<lparr> randomGenerator := rng \<rparr>) of
                    Inl e \<Rightarrow> Inl e
                  | Inr ((util, pTail), tr2) \<Rightarrow>
                      (let tr3 =
                             (if player = playerIndex then
                                let W = util * p_o
                                in addRegrets tr2 infoSet (actionNum game)
                                     (\<lambda>node a. if a = chooseAction
                                        then W * (1 - strategy node ! chooseAction) * pTail
                                        else - W * pTail * strategy node ! chooseAction)
                              else node_upd tr2 infoSet
                                     (\<lambda>node. strategySum node (strategy node) (p_o / s)))
                       in Inr ((util, pTail * strategy (node_at tr3 infoSet) ! chooseAction), tr3)))
            else Inl IllFormed)"
  by pat_completeness auto
termination
  by (relation "measure (\<lambda>(D, g, _). size g)") (auto simp: size_takeAction)

declare outcomeSamplingCFR.simps [simp del]

subsection \<open>Persistence\<close>

text \<open>
  \<open>writeStrategyToBin\<close> first prints every table: the print loop calls
  \<open>averageStrategy()\<close> once per action of the table. Then the node map goes to a binary
  archive, which stores for every key the vector that \<open>Node::save\<close> produces. Reading an
  archive (the constructor of \<open>Trainer\<close>) builds a default-constructed \<open>Node\<close> for every
  key and lets \<open>Node::load\<close> fill it. The file name is not modelled; the archive is
  returned with the \<open>iteration\<close> argument that names it.
\<close>

type_synonym archive = "string \<rightharpoonup> real list"

definition printNode :: "Node \<Rightarrow> Node" where
  "printNode n = fold (\<lambda>i node. snd (averageStrategy node)) [0..<actionNum_of n] n"

definition writeArchive :: "(string \<rightharpoonup> Node) \<Rightarrow> archive" where
  "writeArchive nodes = (\<lambda>k. map_option save (nodes k))"

definition readArchive :: "archive \<Rightarrow> (string \<rightharpoonup> Node)" where
  "readArchive ar = (\<lambda>k. map_option (load (newNode 0)) (ar k))"

definition writeStrategyToBin :: "int \<Rightarrow> 'r trainer \<Rightarrow> (int \<times> archive) \<times> 'r trainer" where
  "writeStrategyToBin iteration tr =
     (let nodes = (\<lambda>k. map_option printNode (mNodeMap tr k))
      in ((iteration, writeArchive nodes), tr\<lparr> mNodeMap := nodes \<rparr>))"

subsection \<open>The training loop\<close>

text \<open>
  \<open>mGame->resetGame(skipChanceAction)\<close> belongs to the game class and may draw from the
  trainer's generator; it is the parameter \<open>R\<close>. Its declaration gives the argument the
  default value \<open>true\<close>, which is what the call \<open>mGame->resetGame()\<close> passes.
\<close>

type_synonym 'r reset = "bool \<Rightarrow> game \<Rightarrow> 'r \<Rightarrow> game \<times> 'r"

definition resetGame :: "'r reset \<Rightarrow> bool \<Rightarrow> 'r trainer \<Rightarrow> 'r trainer" where
  "resetGame R skipChanceAction tr =
     (let (g, rng) = R skipChanceAction (mGame tr) (randomGenerator tr)
      in tr\<lparr> mGame := g, randomGenerator := rng \<rparr>)"

definition resetGame_default :: "'r reset \<Rightarrow> 'r trainer \<Rightarrow> 'r trainer" where
  "resetGame_default R tr = resetGame R True tr"

definition updateAll :: "'r trainer \<Rightarrow> 'r trainer" where
  "updateAll tr = tr\<lparr> mNodeMap := (\<lambda>k. map_option updateStrategy (mNodeMap tr k)) \<rparr>"

text \<open>The body of the loop over the players, for iteration \<open>i\<close> and player \<open>p\<close>.\<close>

definition train_player ::
  "'r sampler \<Rightarrow> 'r reset \<Rightarrow> int \<Rightarrow> nat \<Rightarrow> real list \<times> 'r trainer \<Rightarrow> error + real list \<times> 'r trainer" where
  "train_player D R i p st =
     (let (utils, tr) = st in
      if \<not> mUpdate tr ! p then Inr (utils, tr)
      else if mModeStr tr = ''standard'' then
        (let tr1 = resetGame R False tr
         in case CFR (mGame tr1) p 1 1 tr1 of
              Inl e \<Rightarrow> Inl e
            | Inr (u, tr2) \<Rightarrow> Inr (utils[p := u], updateAll tr2))
      else
        (let tr1 = resetGame_default R tr in
         if mModeStr tr1 = ''chance'' then
           (case chanceSamplingCFR D (mGame tr1) p 1 1 tr1 of
              Inl e \<Rightarrow> Inl e
            | Inr (u, tr2) \<Rightarrow> Inr (utils[p := u], updateAll tr2))
         else if mModeStr tr1 = ''external'' then
           (case externalSamplingCFR D (mGame tr1) p tr1 of
              Inl e \<Rightarrow> Inl e
            | Inr (u, tr2) \<Rightarrow> Inr (utils[p := u], tr2))
         else if mModeStr tr1 = ''outcome'' then
           (case outcomeSamplingCFR D (mGame tr1) p i 1 1 1 tr1 of
              Inl e \<Rightarrow> Inl e
            | Inr ((u, pTail), tr2) \<Rightarrow> Inr (utils[p := u], tr2))
         else Inl BadMode))"

text \<open>
  \<open>Trainer::train(iterations)\<close>, with the number of players and the initial content of
  the local array \<open>utils\<close> as parameters. The log line is not modelled. The result holds
  the archives written, in order.
\<close>

definition train ::
  "'r sampler \<Rightarrow> 'r reset \<Rightarrow> nat \<Rightarrow> real list \<Rightarrow> nat \<Rightarrow> 'r trainer
     \<Rightarrow> error + (int \<times> archive) list \<times> 'r trainer" where
  "train D R playerNum utils0 iterations tr =
     (case for_loop iterations
             (\<lambda>i (utils, files, t).
                case for_loop playerNum (\<lambda>p. train_player D R (int i) p) (utils, t) of
                  Inl e \<Rightarrow> Inl e
                | Inr (utils', t') \<Rightarrow>
                    if i \<noteq> 0 \<and> i mod 10000000 = 0
                    then (let (file, t'') = writeStrategyToBin (int i) t'
                          in Inr (utils', files @ [file], t''))
                    else Inr (utils', files, t'))
             (utils0, [], tr) of
        Inl e \<Rightarrow> Inl e
      | Inr (utils, files, t) \<Rightarrow>
          (let (file, t') = writeStrategyToBin (- 1) t in Inr (files @ [file], t')))"

section \<open>The evaluator's best-response pass\<close>

text \<open>
  \<open>Trainer::CalculateBestResponseValue\<close>. At a node of the best-responding player the
  function recurses into the successors of every state stored for the information set,
  so the recursion does not follow the tree of its argument; the model counts calls down
  from \<open>fuel\<close> and \<open>OutOfFuel\<close> is the run that has not returned within them.
  \<open>strategies[player](game)\<close> is a function from states to strategy arrays,
  \<open>bestResponseStrategies\<close> a map from keys to vectors, \<open>infoSets\<close> a map from keys to
  vectors of (state, reach) pairs. A stored state with fewer successors than the current
  state has actions ends the run with \<open>IllFormed\<close>.
\<close>

datatype stop = OutOfFuel | Thrown error

definition argmax_loop :: "real list \<Rightarrow> nat \<Rightarrow> nat" where
  "argmax_loop actionValues n =
     fold (\<lambda>a brAction. if actionValues ! a > actionValues ! brAction then a else brAction)
          [0..<n] 0"

fun CalculateBestResponseValue ::
  "nat \<Rightarrow> game \<Rightarrow> nat \<Rightarrow> (game \<Rightarrow> real list) list \<Rightarrow> (string \<rightharpoonup> real list) \<Rightarrow> real
     \<Rightarrow> (string \<rightharpoonup> (game \<times> real) list) \<Rightarrow> stop + real \<times> (string \<rightharpoonup> real list)" where
  "CalculateBestResponseValue 0 game playerIndex strategies brs po infoSets = Inl OutOfFuel"
| "CalculateBestResponseValue (Suc fuel) game playerIndex strategies brs po infoSets =
    (if isGameOver game then Inr (payoff game playerIndex, brs)
     else if isChanceNode game then
       for_loop (actionNum game)
         (\<lambda>a (nodeUtil, b).
            let game_cp = takeAction game a;
                chanceProb = chanceProbability game_cp
            in case CalculateBestResponseValue fuel game_cp playerIndex strategies b
                      (po * chanceProb) infoSets of
                 Inl e \<Rightarrow> Inl e
               | Inr (v, b') \<Rightarrow> Inr (nodeUtil + chanceProb * v, b'))
         (0, brs)
     else
       let player = currentPlayer game in
       if player = playerIndex then
         (let infoSet = infoSetStr game in
          case (if brs infoSet = None then
                  (case infoSets infoSet of
                     None \<Rightarrow> Inl (Thrown OutOfRange)
                   | Some states \<Rightarrow>
                       (case for_loop (length states)
                               (\<lambda>i. for_loop (actionNum game)
                                  (\<lambda>a (actionValues, b).
                                     let (game', po') = states ! i in
                                     if a < actionNum game' then
                                       (case CalculateBestResponseValue fuel (takeAction game' a)
                                                playerIndex strategies b po' infoSets of
                                          Inl e \<Rightarrow> Inl e
                                        | Inr (v, b') \<Rightarrow>
                                            Inr (actionValues[a := actionValues ! a + po' * v], b'))
                                     else Inl (Thrown IllFormed)))
                               (replicate (actionNum game) 0, brs) of
                          Inl e \<Rightarrow> Inl e
                        | Inr (actionValues, b) \<Rightarrow>
                            (let brAction = argmax_loop actionValues (actionNum game)
                             in Inr (b(infoSet \<mapsto> (replicate (actionNum game) 0)[brAction := 1])))))
                else Inr brs) of
            Inl e \<Rightarrow> Inl e
          | Inr brs1 \<Rightarrow>
              (case for_loop (actionNum game)
                      (\<lambda>a (utils, b).
                         case CalculateBestResponseValue fuel (takeAction game a) playerIndex
                                  strategies b po infoSets of
                           Inl e \<Rightarrow> Inl e
                         | Inr (v, b') \<Rightarrow> Inr (utils @ [v], b'))
                      ([], brs1) of
                 Inl e \<Rightarrow> Inl e
               | Inr (utils, brs2) \<Rightarrow>
                   (case brs2 infoSet of
                      None \<Rightarrow> Inl (Thrown OutOfRange)
                    | Some bs \<Rightarrow>
                        Inr (fold (\<lambda>a v. v + utils ! a * bs ! a) [0..<actionNum game] 0, brs2))))
       else
         for_loop (actionNum game)
           (\<lambda>a (nodeUtil, b).
              let game_cp = takeAction game a;
                  actionProb = (strategies ! player) game ! a
              in case CalculateBestResponseValue fuel game_cp playerIndex strategies b
                        (po * actionProb) infoSets of
                   Inl e \<Rightarrow> Inl e
                 | Inr (v, b') \<Rightarrow> Inr (nodeUtil + actionProb * v, b'))
           (0, brs))"

declare CalculateBestResponseValue.simps(2) [simp del]

section \<open>Properties of the regret table\<close>

subsection \<open>Loops over index ranges\<close>

lemma fold_invariant:
  assumes "P s" and "\<And>x s. x \<in> set xs \<Longrightarrow> P s \<Longrightarrow> P (f x s)"
  shows "P (fold f xs s)"
  using assms by (induction xs arbitrary: s) auto

lemma fold_index_update:
  "k \<le> length xs \<Longrightarrow>
   fold (\<lambda>a cs. cs[a := f a (cs ! a)]) [0..<k] xs = map (\<lambda>a. f a (xs ! a)) [0..<k] @ drop k xs"
proof (induction k)
  case 0
  then show ?case by simp
next
  case (Suc k)
  then have k: "k < length xs" by simp
  have d: "drop k xs = xs ! k # drop (Suc k) xs"
    using k by (simp add: Cons_nth_drop_Suc)
  show ?case using Suc.IH k
    by (simp add: d list_update_append nth_append)
qed

lemma upt_2: "[0..<2] = [0, 1]"
  by (simp add: upt_rec)

lemma replicate_2: "replicate 2 x = [x, x]"
  by (simp add: numeral_2_eq_2)

subsection \<open>Regret matching\<close>

lemma positivePart_loop_eq:
  "A \<le> length cs0 \<Longrightarrow>
   positivePart_loop r A cs0 =
     (map (\<lambda>a. max (r ! a) 0) [0..<A] @ drop A cs0, (\<Sum>a<A. max (r ! a) 0))"
  unfolding positivePart_loop_def
proof (induction A)
  case 0
  then show ?case by simp
next
  case (Suc A)
  then have k: "A < length cs0" by simp
  have d: "drop A cs0 = cs0 ! A # drop (Suc A) cs0"
    using k by (simp add: Cons_nth_drop_Suc)
  show ?case using Suc.IH k
    by (simp add: d list_update_append nth_append max_def)
qed

lemma normalize_loop_eq:
  assumes "A \<le> length cs"
  shows "normalize_loop Z A cs =
           map (\<lambda>a. if Z > 0 then cs ! a / Z else 1 / real A) [0..<A] @ drop A cs"
proof -
  have "normalize_loop Z A cs =
          fold (\<lambda>a cs. cs[a := (if Z > 0 then cs ! a / Z else 1 / real A)]) [0..<A] cs"
    unfolding normalize_loop_def
    by (rule arg_cong[where f="\<lambda>f. fold f [0..<A] cs"]) (auto intro!: ext)
  then show ?thesis
    using fold_index_update[OF assms, of "\<lambda>a x. if Z > 0 then x / Z else 1 / real A"] by simp
qed

lemma positive_sum_zero_iff:
  "((\<Sum>b<A. max (r ! b) (0::real)) = 0) = (\<forall>b<A. r ! b \<le> 0)"
proof -
  have "((\<Sum>b\<in>{..<A}. max (r ! b) (0::real)) = 0) = (\<forall>b\<in>{..<A}. max (r ! b) 0 = 0)"
    by (rule sum_nonneg_eq_0_iff) auto
  then show ?thesis by (auto simp: max_def split: if_splits)
qed

text \<open>
  C3. When \<open>strategyNeedsUpdate\<close> is set, \<open>updateStrategy\<close> leaves in every cell \<open>a\<close> of
  the current strategy the positive part of the cumulative regret of \<open>a\<close> divided by
  \<open>Z\<close>, the sum of the positive parts over all actions; when \<open>Z = 0\<close>, which is the case
  exactly when no cumulative regret is positive, every cell holds \<open>1 / A\<close>. The table's
  strategy array has room for its \<open>A\<close> actions, as every constructed table's has.
\<close>

theorem updateStrategy_regret_matching:
  assumes "strategyNeedsUpdate n"
    and "actionNum_of n \<le> length (mCurrentStrategy n)"
    and "a < actionNum_of n"
  shows "mCurrentStrategy (updateStrategy n) ! a =
           (let Z = (\<Sum>b<actionNum_of n. max (regretSum n b) 0)
            in if Z = 0 then 1 / real (actionNum_of n) else max (regretSum n a) 0 / Z)
         \<and> (((\<Sum>b<actionNum_of n. max (regretSum n b) 0) = 0)
              = (\<forall>b<actionNum_of n. regretSum n b \<le> 0))"
proof -
  let ?A = "actionNum_of n"
  let ?Z = "\<Sum>b<?A. max (mRegretSum n ! b) 0"
  have Z0: "0 \<le> ?Z" by (rule sum_nonneg) simp
  have "mCurrentStrategy (updateStrategy n) =
          normalize_loop ?Z ?A
            (map (\<lambda>a. max (mRegretSum n ! a) 0) [0..<?A] @ drop ?A (mCurrentStrategy n))"
    using assms(1,2) by (simp add: updateStrategy_def positivePart_loop_eq)
  also have "\<dots> ! a = (if ?Z > 0 then max (mRegretSum n ! a) 0 / ?Z else 1 / real ?A)"
    using assms(2,3) by (subst normalize_loop_eq) (simp_all add: nth_append)
  finally have "mCurrentStrategy (updateStrategy n) ! a =
           (let Z = (\<Sum>b<actionNum_of n. max (regretSum n b) 0)
            in if Z = 0 then 1 / real (actionNum_of n) else max (regretSum n a) 0 / Z)"
    using Z0 by (simp add: regretSum_def Let_def)
  moreover have "((\<Sum>b<actionNum_of n. max (regretSum n b) 0) = 0)
                  = (\<forall>b<actionNum_of n. regretSum n b \<le> 0)"
    unfolding regretSum_def by (rule positive_sum_zero_iff)
  ultimately show ?thesis by blast
qed

lemma sum_lessThan_2: "(\<Sum>b<(2::nat). f b) = f 0 + (f 1 :: real)"
  by (simp add: numeral_2_eq_2 lessThan_Suc)

theorem updateStrategy_regret_matching_witness:
  "mCurrentStrategy (updateStrategy (regretSum_set (regretSum_set (newNode 2) 0 3) 1 1)) ! 0 = 3 / 4
   \<and> mCurrentStrategy (updateStrategy (regretSum_set (newNode 2) 0 (- 5))) ! 1 = 1 / 2"
proof -
  let ?n = "regretSum_set (regretSum_set (newNode 2) 0 3) 1 1"
  let ?m = "regretSum_set (newNode 2) 0 (- 5)"
  have n: "strategyNeedsUpdate ?n" "actionNum_of ?n \<le> length (mCurrentStrategy ?n)" "0 < actionNum_of ?n"
    by (simp_all add: regretSum_set_def newNode_def actionNum_of_def)
  have m: "strategyNeedsUpdate ?m" "actionNum_of ?m \<le> length (mCurrentStrategy ?m)" "1 < actionNum_of ?m"
    by (simp_all add: regretSum_set_def newNode_def actionNum_of_def)
  have an: "actionNum_of ?n = 2" "regretSum ?n 0 = 3" "regretSum ?n 1 = 1"
    by (simp_all add: regretSum_set_def regretSum_def newNode_def actionNum_of_def replicate_2)
  have am: "actionNum_of ?m = 2" "regretSum ?m 0 = - 5" "regretSum ?m 1 = 0"
    by (simp_all add: regretSum_set_def regretSum_def newNode_def actionNum_of_def replicate_2)
  have "mCurrentStrategy (updateStrategy ?n) ! 0 = 3 / 4"
    using updateStrategy_regret_matching[OF n] unfolding an sum_lessThan_2 by simp
  moreover have "mCurrentStrategy (updateStrategy ?m) ! 1 = 1 / 2"
    using updateStrategy_regret_matching[OF m] unfolding am sum_lessThan_2 by simp
  ultimately show ?thesis by blast
qed

text \<open>
  C9. \<open>updateStrategy\<close> never writes \<open>strategyNeedsUpdate\<close>: once the setter of
  \<open>regretSum\<close> has raised the flag, it is still raised after \<open>updateStrategy\<close> returns,
  here for a table of two actions after \<open>regretSum(0, 1.0)\<close>, and a second call computes
  the strategy again.
\<close>

theorem updateStrategy_leaves_flag_raised:
  "strategyNeedsUpdate (updateStrategy (regretSum_set (newNode 2) 0 1))
   \<and> strategyNeedsUpdate (updateStrategy n) = strategyNeedsUpdate n"
  by (simp add: updateStrategy_def regretSum_set_def newNode_def split: prod.splits)

subsection \<open>Average strategy and persistence\<close>

lemma calcAverageStrategy_flag: "alreadyCalculated (calcAverageStrategy n)"
  by (simp add: calcAverageStrategy_def Let_def)

lemma calcAverageStrategy_actionNum: "actionNum_of (calcAverageStrategy n) = actionNum_of n"
  by (simp add: calcAverageStrategy_def actionNum_of_def Let_def)

lemma averageStrategy_snd:
  "alreadyCalculated (snd (averageStrategy n))"
  "actionNum_of (snd (averageStrategy n)) = actionNum_of n"
  "mAverageStrategy (snd (averageStrategy n)) = fst (averageStrategy n)"
  by (simp_all add: averageStrategy_def Let_def calcAverageStrategy_flag
      calcAverageStrategy_actionNum)

lemma averageStrategy_clean:
  "alreadyCalculated n \<Longrightarrow> averageStrategy n = (mAverageStrategy n, n)"
  by (simp add: averageStrategy_def)

lemma averageStrategy_idem:
  "averageStrategy (snd (averageStrategy n)) = (fst (averageStrategy n), snd (averageStrategy n))"
  by (simp add: averageStrategy_clean averageStrategy_snd)

lemma printNode_eq:
  "printNode n = (if actionNum_of n = 0 then n else snd (averageStrategy n))"
proof -
  have "fold (\<lambda>i node. snd (averageStrategy node)) [0..<Suc k] n = snd (averageStrategy n)" for k
    by (induction k) (simp_all add: averageStrategy_idem)
  then show ?thesis
    by (cases "actionNum_of n") (simp_all add: printNode_def)
qed

lemma printNode_actionNum: "actionNum_of (printNode n) = actionNum_of n"
  by (simp add: printNode_eq averageStrategy_snd)

lemma save_printNode:
  "save (printNode n) = map (\<lambda>i. fst (averageStrategy n) ! i) [0..<actionNum_of n]"
  by (simp add: printNode_eq save_def averageStrategy_snd)

lemma length_save: "length (save n) = actionNum_of n"
  by (simp add: save_def)

lemma load_actionNum: "length vec < 256 \<Longrightarrow> actionNum_of (load n vec) = length vec"
  by (simp add: load_def actionNum_of_def unat_of_nat)

lemma load_average: "averageStrategy (load n vec) = (vec, load n vec)"
  by (simp add: averageStrategy_def load_def map_nth)

lemma actionNum_of_less: "actionNum_of n < 256"
proof -
  have "unat (mActionNum n) < 2 ^ LENGTH(8)" by (rule unsigned_less)
  then show ?thesis by (simp add: actionNum_of_def)
qed

text \<open>
  C7. Writing the node map with \<open>writeStrategyToBin\<close> and reading the archive back
  gives, for every key of the node map, a table with the action count of the original
  table and with the average strategy of the original table in every entry.
\<close>

theorem persistence_round_trip:
  assumes "mNodeMap tr k = Some n"
  shows "\<exists>m. readArchive (snd (fst (writeStrategyToBin it tr))) k = Some m
           \<and> actionNum_of m = actionNum_of n
           \<and> (\<forall>i<actionNum_of n. fst (averageStrategy m) ! i = fst (averageStrategy n) ! i)"
proof -
  let ?m = "load (newNode 0) (save (printNode n))"
  have len: "length (save (printNode n)) = actionNum_of n"
    by (simp add: length_save printNode_actionNum)
  have "readArchive (snd (fst (writeStrategyToBin it tr))) k = Some ?m"
    using assms by (simp add: readArchive_def writeStrategyToBin_def writeArchive_def Let_def)
  moreover have "actionNum_of ?m = actionNum_of n"
    using load_actionNum[of "save (printNode n)" "newNode 0"] actionNum_of_less[of n] len by simp
  moreover have "\<forall>i<actionNum_of n. fst (averageStrategy ?m) ! i = fst (averageStrategy n) ! i"
    by (simp add: load_average save_printNode)
  ultimately show ?thesis by blast
qed

definition tr_example :: "unit trainer" where
  "tr_example =
     \<lparr> randomGenerator = (),
       mNodeMap = [''k'' \<mapsto> strategySum (newNode 2) [1 / 2, 1 / 2] 2],
       mNodeTouchedCnt = 0, mGame = Game True False 0 [] 0 [] [], mModeStr = ''standard'',
       mFixedStrategies = [], mUpdate = [True, True] \<rparr>"

lemma example_average:
  "fst (averageStrategy (strategySum (newNode 2) [1 / 2, 1 / 2] 2)) = [1 / 2, 1 / 2]"
  by (simp add: averageStrategy_def calcAverageStrategy_def strategySum_def newNode_def
      actionNum_of_def Let_def upt_2 replicate_2)

theorem persistence_round_trip_witness:
  "\<exists>m. readArchive (snd (fst (writeStrategyToBin (- 1) tr_example))) ''k'' = Some m
      \<and> actionNum_of m = 2
      \<and> fst (averageStrategy m) ! 0 = 1 / 2 \<and> fst (averageStrategy m) ! 1 = 1 / 2"
proof -
  have k: "mNodeMap tr_example ''k'' = Some (strategySum (newNode 2) [1 / 2, 1 / 2] 2)"
    by (simp add: tr_example_def)
  have a: "actionNum_of (strategySum (newNode 2) [1 / 2, 1 / 2] 2) = 2"
    by (simp add: strategySum_def newNode_def actionNum_of_def)
  from persistence_round_trip[OF k, of "- 1"] show ?thesis
    by (auto simp: a example_average)
qed

text \<open>
  C10. \<open>Node::save\<close> reads only the cached array and the action count: changing the
  strategy sums or the flag \<open>alreadyCalculated\<close> does not change what it writes. What
  \<open>writeStrategyToBin\<close> stores for a key is the vector saved from the table after the
  print loop, in which \<open>averageStrategy()\<close> has run on every table that has an action.
  A table of two actions whose sums were changed by \<open>strategySum\<close> and whose average was
  not requested afterwards is saved with its old cells, zero and zero, while its average
  strategy is one half and one half.
\<close>

theorem save_writes_cached_average:
  "save (n\<lparr> mStrategySum := ss, alreadyCalculated := b \<rparr>) = save n
   \<and> snd (fst (writeStrategyToBin it tr)) k =
       map_option (\<lambda>n. save (if actionNum_of n = 0 then n else snd (averageStrategy n)))
         (mNodeMap tr k)
   \<and> (let stale = strategySum (newNode 2) (strategy (newNode 2)) 1
      in \<not> alreadyCalculated stale \<and> save stale = [0, 0]
         \<and> save (snd (averageStrategy stale)) = [1 / 2, 1 / 2])"
proof -
  have "save (n\<lparr> mStrategySum := ss, alreadyCalculated := b \<rparr>) = save n"
    by (simp add: save_def actionNum_of_def)
  moreover have "snd (fst (writeStrategyToBin it tr)) k =
       map_option (\<lambda>n. save (if actionNum_of n = 0 then n else snd (averageStrategy n)))
         (mNodeMap tr k)"
    by (cases "mNodeMap tr k") (simp_all add: writeStrategyToBin_def writeArchive_def Let_def printNode_eq)
  moreover have "(let stale = strategySum (newNode 2) (strategy (newNode 2)) 1
      in \<not> alreadyCalculated stale \<and> save stale = [0, 0]
         \<and> save (snd (averageStrategy stale)) = [1 / 2, 1 / 2])"
    by (simp add: averageStrategy_def calcAverageStrategy_def strategySum_def newNode_def
        strategy_def save_def actionNum_of_def Let_def upt_2 replicate_2)
  ultimately show ?thesis by blast
qed

section \<open>Properties of the solvers\<close>

lemma touch_fields [simp]:
  "mUpdate (touch tr) = mUpdate tr"
  "mNodeMap (touch tr) = mNodeMap tr"
  "mFixedStrategies (touch tr) = mFixedStrategies tr"
  "randomGenerator (touch tr) = randomGenerator tr"
  "mModeStr (touch tr) = mModeStr tr"
  "mGame (touch tr) = mGame tr"
  by (simp_all add: touch_def)

subsection \<open>Loops with errors\<close>

lemma for_loop_0 [simp]: "for_loop 0 body s = Inr s"
  by (simp add: for_loop_def)

lemma for_loop_Suc:
  "for_loop (Suc n) body s = (case for_loop n body s of Inl e \<Rightarrow> Inl e | Inr s' \<Rightarrow> body n s')"
  by (simp add: for_loop_def)

lemma for_loop_invariant:
  assumes "for_loop n body s = Inr s'"
    and "P s"
    and "\<And>a s s'. a < n \<Longrightarrow> P s \<Longrightarrow> body a s = Inr s' \<Longrightarrow> P s'"
  shows "P s'"
  using assms
proof (induction n arbitrary: s')
  case 0
  then show ?case by simp
next
  case (Suc n)
  from Suc.prems(1) obtain sn where sn: "for_loop n body s = Inr sn" and b: "body n sn = Inr s'"
    by (auto simp: for_loop_Suc split: sum.splits)
  have "P sn" using Suc.IH[OF sn Suc.prems(2)] Suc.prems(3) by (meson less_Suc_eq)
  then show ?case using Suc.prems(3)[of n sn s'] b by simp
qed

lemma game_induct [case_names step]:
  assumes "\<And>g. (\<And>a. a < actionNum g \<Longrightarrow> P (takeAction g a)) \<Longrightarrow> P g"
  shows "P g"
proof (induction g rule: measure_induct_rule[of size])
  case (less g)
  show ?case by (rule assms) (simp add: less size_takeAction)
qed

text \<open>The loop over the actions of a decision node, for any recursive call \<open>call\<close>.\<close>

lemma children_loop:
  assumes "for_loop n
             (\<lambda>a (utils, nodeUtil, t).
                case call a t of
                  Inl e \<Rightarrow> Inl e
                | Inr (u, t') \<Rightarrow> Inr (utils @ [u], nodeUtil + w t' a * u, t'))
             ([], 0, t0) = Inr (utils, nodeUtil, tn)"
  shows "\<exists>ts. length utils = n \<and> length ts = Suc n \<and> ts ! 0 = t0 \<and> ts ! n = tn
            \<and> (\<forall>a<n. call a (ts ! a) = Inr (utils ! a, ts ! Suc a))
            \<and> nodeUtil = (\<Sum>a<n. w (ts ! Suc a) a * utils ! a)"
  using assms
proof (induction n arbitrary: utils nodeUtil tn)
  case 0
  then show ?case by (auto intro: exI[of _ "[t0]"])
next
  case (Suc n)
  let ?body = "\<lambda>a (utils, nodeUtil, t).
                case call a t of
                  Inl e \<Rightarrow> Inl e
                | Inr (u, t') \<Rightarrow> Inr (utils @ [u], nodeUtil + w t' a * u, t')"
  from Suc.prems obtain us v t u where
    loop: "for_loop n ?body ([], 0, t0) = Inr (us, v, t)"
    and call: "call n t = Inr (u, tn)"
    and res: "utils = us @ [u]" "nodeUtil = v + w tn n * u"
    by (auto simp: for_loop_Suc split: sum.splits prod.splits)
  from Suc.IH[OF loop] obtain ts where ts:
    "length us = n" "length ts = Suc n" "ts ! 0 = t0" "ts ! n = t"
    "\<forall>a<n. call a (ts ! a) = Inr (us ! a, ts ! Suc a)"
    "v = (\<Sum>a<n. w (ts ! Suc a) a * us ! a)"
    by blast
  let ?ts = "ts @ [tn]"
  have 1: "length utils = Suc n" using res ts by simp
  have 2: "length ?ts = Suc (Suc n)" using ts by simp
  have 3: "?ts ! 0 = t0" using ts by (simp add: nth_append)
  have 4: "?ts ! Suc n = tn" using ts by (simp add: nth_append)
  have 5: "\<forall>a<Suc n. call a (?ts ! a) = Inr (utils ! a, ?ts ! Suc a)"
    using ts call res by (auto simp: nth_append less_Suc_eq)
  have 6: "nodeUtil = (\<Sum>a<Suc n. w (?ts ! Suc a) a * utils ! a)"
    using ts res by (simp add: nth_append)
  show ?case using 1 2 3 4 5 6 by blast
qed

subsection \<open>Vanilla CFR leaves every current strategy as it is\<close>

definition keeps_strategies :: "'r trainer \<Rightarrow> 'r trainer \<Rightarrow> bool" where
  "keeps_strategies t t' \<longleftrightarrow>
     (\<forall>k nd. mNodeMap t k = Some nd \<longrightarrow>
        (\<exists>nd'. mNodeMap t' k = Some nd' \<and> mCurrentStrategy nd' = mCurrentStrategy nd
              \<and> mActionNum nd' = mActionNum nd
              \<and> length (mRegretSum nd') = length (mRegretSum nd)))"

lemma keeps_refl: "keeps_strategies t t"
  by (simp add: keeps_strategies_def)

lemma keeps_trans: "keeps_strategies t t' \<Longrightarrow> keeps_strategies t' t'' \<Longrightarrow> keeps_strategies t t''"
  unfolding keeps_strategies_def by fastforce

lemma keeps_same_map: "mNodeMap t' = mNodeMap t \<Longrightarrow> keeps_strategies t t'"
  by (simp add: keeps_strategies_def)

lemma keeps_fetchNode: "keeps_strategies t (fetchNode t k n)"
  by (auto simp: keeps_strategies_def fetchNode_def split: option.splits)

lemma keeps_node_upd:
  assumes "\<And>nd. mCurrentStrategy (f nd) = mCurrentStrategy nd \<and> mActionNum (f nd) = mActionNum nd
                \<and> length (mRegretSum (f nd)) = length (mRegretSum nd)"
  shows "keeps_strategies t (node_upd t k f)"
  using assms by (auto simp: keeps_strategies_def node_upd_def node_at_def)

lemma keeps_addRegrets: "keeps_strategies t (addRegrets t k n f)"
  unfolding addRegrets_def
proof (rule fold_invariant[where P="keeps_strategies t"])
  show "keeps_strategies t t" by (rule keeps_refl)
next
  fix x s assume "keeps_strategies t s"
  moreover have "keeps_strategies s (node_upd s k (\<lambda>node. regretSum_set node x (regretSum node x + f node x)))"
    by (rule keeps_node_upd) (simp add: regretSum_set_def)
  ultimately show "keeps_strategies t (node_upd s k (\<lambda>node. regretSum_set node x (regretSum node x + f node x)))"
    by (rule keeps_trans)
qed

lemma keeps_strategySum: "keeps_strategies t (node_upd t k (\<lambda>node. strategySum node (g node) w))"
  by (rule keeps_node_upd) (simp add: strategySum_def)

lemma fixedAverage_map: "fixedAverage t player k = Inr (av, t1) \<Longrightarrow> mNodeMap t1 = mNodeMap t"
  by (auto simp: fixedAverage_def Let_def split: option.splits prod.splits)

lemma CFR_keeps:
  "CFR g p p_i p_o t = Inr (u, t') \<Longrightarrow> keeps_strategies t t'"
proof (induction g arbitrary: p_i p_o t u t' rule: game_induct)
  case (step g)
  let ?tr = "touch t"
  have tr: "keeps_strategies t ?tr" by (rule keeps_same_map) simp
  show ?case
  proof (cases "isGameOver g")
    case True
    then show ?thesis using step.prems tr by (simp add: CFR.simps[of g])
  next
    case over: False
    show ?thesis
    proof (cases "isChanceNode g")
      case True
      let ?body = "\<lambda>a (nodeUtil, t).
            let game_cp = takeAction g a;
                chanceProb = chanceProbability game_cp
            in case CFR game_cp p p_i (p_o * chanceProb) t of
                 Inl e \<Rightarrow> Inl e
               | Inr (u, t') \<Rightarrow> Inr (nodeUtil + chanceProb * u, t')"
      from step.prems over True have loop: "for_loop (actionNum g) ?body (0, ?tr) = Inr (u, t')"
        by (simp add: CFR.simps[of g])
      have "(\<lambda>(x, s). keeps_strategies t s) (u, t')"
      proof (rule for_loop_invariant[OF loop])
        show "(\<lambda>(x, s). keeps_strategies t s) (0, ?tr)" using tr by simp
      next
        fix a s s' assume a: "a < actionNum g" and P: "(\<lambda>(x, s). keeps_strategies t s) s"
          and b: "?body a s = Inr s'"
        obtain x1 t1 where s: "s = (x1, t1)" by (cases s)
        obtain x2 t2 where s': "s' = (x2, t2)" by (cases s')
        from b s s' obtain v where "CFR (takeAction g a) p p_i (p_o * chanceProbability (takeAction g a)) t1 = Inr (v, t2)"
          by (auto simp: Let_def split: sum.splits)
        from step.IH[OF a this] P s have "keeps_strategies t t2" by (auto intro: keeps_trans)
        then show "(\<lambda>(x, s). keeps_strategies t s) s'" using s' by simp
      qed
      then show ?thesis by simp
    next
      case chance: False
      let ?k = "infoSetStr g"
      let ?pl = "currentPlayer g"
      show ?thesis
      proof (cases "mUpdate t ! ?pl")
        case False
        let ?body = "\<lambda>a (nodeUtil, t).
              let game_cp = takeAction g a
              in case fixedAverage t ?pl ?k of
                   Inl e \<Rightarrow> Inl e
                 | Inr (av, t1) \<Rightarrow>
                     (let chanceProb = av ! a
                      in case CFR game_cp p p_i (p_o * chanceProb) t1 of
                           Inl e \<Rightarrow> Inl e
                         | Inr (u, t') \<Rightarrow> Inr (nodeUtil + chanceProb * u, t'))"
        from step.prems over chance False have loop: "for_loop (actionNum g) ?body (0, ?tr) = Inr (u, t')"
          by (simp add: CFR.simps[of g] Let_def)
        have "(\<lambda>(x, s). keeps_strategies t s) (u, t')"
        proof (rule for_loop_invariant[OF loop])
          show "(\<lambda>(x, s). keeps_strategies t s) (0, ?tr)" using tr by simp
        next
          fix a s s' assume a: "a < actionNum g" and P: "(\<lambda>(x, s). keeps_strategies t s) s"
            and b: "?body a s = Inr s'"
          obtain x1 t1 where s: "s = (x1, t1)" by (cases s)
          obtain x2 t2 where s': "s' = (x2, t2)" by (cases s')
          from b s s' obtain av tf v where f: "fixedAverage t1 ?pl ?k = Inr (av, tf)"
            and c: "CFR (takeAction g a) p p_i (p_o * av ! a) tf = Inr (v, t2)"
            by (auto simp: Let_def split: sum.splits)
          have "keeps_strategies t1 tf" using fixedAverage_map[OF f] by (rule keeps_same_map)
          with step.IH[OF a c] P s have "keeps_strategies t t2" by (auto intro: keeps_trans)
          then show "(\<lambda>(x, s). keeps_strategies t s) s'" using s' by simp
        qed
        then show ?thesis by simp
      next
        case True
        let ?t1 = "fetchNode ?tr ?k (actionNum g)"
        let ?body = "\<lambda>a (utils, nodeUtil, t).
                   let game_cp = takeAction g a
                   in case (if ?pl = p
                            then CFR game_cp p (p_i * strategy (node_at t ?k) ! a) p_o t
                            else CFR game_cp p p_i (p_o * strategy (node_at t ?k) ! a) t) of
                        Inl e \<Rightarrow> Inl e
                      | Inr (u, t') \<Rightarrow>
                          Inr (utils @ [u], nodeUtil + strategy (node_at t' ?k) ! a * u, t')"
        from step.prems over chance True obtain utils tr2 where
          loop: "for_loop (actionNum g) ?body ([], 0, ?t1) = Inr (utils, u, tr2)"
          and fin: "t' = (if ?pl = p then node_upd (addRegrets tr2 ?k (actionNum g) (\<lambda>node a. p_o * (utils ! a - u))) ?k
                              (\<lambda>node. strategySum node (strategy node) p_i) else tr2)"
          by (auto simp: CFR.simps[of g] Let_def split: sum.splits if_splits)
        have t1: "keeps_strategies t ?t1" using tr keeps_fetchNode by (rule keeps_trans)
        have "(\<lambda>(x, y, s). keeps_strategies t s) (utils, u, tr2)"
        proof (rule for_loop_invariant[OF loop])
          show "(\<lambda>(x, y, s). keeps_strategies t s) ([], 0, ?t1)" using t1 by simp
        next
          fix a s s' assume a: "a < actionNum g" and P: "(\<lambda>(x, y, s). keeps_strategies t s) s"
            and b: "?body a s = Inr s'"
          obtain x1 y1 t1 where s: "s = (x1, y1, t1)" by (cases s)
          obtain x2 y2 t2 where s': "s' = (x2, y2, t2)" by (cases s')
          from b s s' obtain v q_i q_o where "CFR (takeAction g a) p q_i q_o t1 = Inr (v, t2)"
            by (auto simp: Let_def split: sum.splits if_splits)
          from step.IH[OF a this] P s have "keeps_strategies t t2" by (auto intro: keeps_trans)
          then show "(\<lambda>(x, y, s). keeps_strategies t s) s'" using s' by simp
        qed
        then have k2: "keeps_strategies t tr2" by simp
        show ?thesis
        proof (cases "?pl = p")
          case True
          have "keeps_strategies tr2 t'" unfolding fin using True
            by (auto intro: keeps_trans[OF keeps_addRegrets keeps_strategySum])
          with k2 show ?thesis by (rule keeps_trans)
        next
          case False
          then show ?thesis using k2 fin by simp
        qed
      qed
    qed
  qed
qed

lemma fetchNode_has: "\<exists>nd. mNodeMap (fetchNode t k n) k = Some nd"
  by (simp add: fetchNode_def split: option.splits)

lemma keeps_strategy:
  assumes "keeps_strategies t t'" and "mNodeMap t k = Some nd"
  shows "strategy (node_at t' k) = strategy (node_at t k)"
    and "\<exists>nd'. mNodeMap t' k = Some nd'"
    and "length (mRegretSum (node_at t' k)) = length (mRegretSum (node_at t k))"
proof -
  from assms obtain nd' where nd': "mNodeMap t' k = Some nd'"
    "mCurrentStrategy nd' = mCurrentStrategy nd"
    "length (mRegretSum nd') = length (mRegretSum nd)"
    unfolding keeps_strategies_def by blast
  show "strategy (node_at t' k) = strategy (node_at t k)"
    using nd' assms(2) by (simp add: strategy_def node_at_def)
  show "\<exists>nd'. mNodeMap t' k = Some nd'" using nd' by simp
  show "length (mRegretSum (node_at t' k)) = length (mRegretSum (node_at t k))"
    using nd' assms(2) by (simp add: node_at_def)
qed

lemma addRegrets_other: "k' \<noteq> k \<Longrightarrow> mNodeMap (addRegrets t k n f) k' = mNodeMap t k'"
  unfolding addRegrets_def
  by (rule fold_invariant[where P="\<lambda>s. mNodeMap s k' = mNodeMap t k'"]) (simp_all add: node_upd_def)

lemma addRegrets_node:
  assumes "mNodeMap t k = Some nd"
    and "\<And>x y. mCurrentStrategy x = mCurrentStrategy y \<Longrightarrow> f x = f y"
  shows "\<exists>nd'. mNodeMap (addRegrets t k n f) k = Some nd'
          \<and> mCurrentStrategy nd' = mCurrentStrategy nd \<and> mStrategySum nd' = mStrategySum nd
          \<and> mActionNum nd' = mActionNum nd \<and> length (mRegretSum nd') = length (mRegretSum nd)
          \<and> (\<forall>a<length (mRegretSum nd).
                mRegretSum nd' ! a = (if a < n then mRegretSum nd ! a + f nd a else mRegretSum nd ! a))"
proof (induction n)
  case 0
  then show ?case using assms(1) by (simp add: addRegrets_def)
next
  case (Suc n)
  then obtain nd' where nd': "mNodeMap (addRegrets t k n f) k = Some nd'"
    "mCurrentStrategy nd' = mCurrentStrategy nd" "mStrategySum nd' = mStrategySum nd"
    "mActionNum nd' = mActionNum nd" "length (mRegretSum nd') = length (mRegretSum nd)"
    "\<forall>a<length (mRegretSum nd).
        mRegretSum nd' ! a = (if a < n then mRegretSum nd ! a + f nd a else mRegretSum nd ! a)"
    by blast
  have f: "f nd' = f nd" by (rule assms(2)) (rule nd'(2))
  have step: "addRegrets t k (Suc n) f =
          node_upd (addRegrets t k n f) k (\<lambda>node. regretSum_set node n (regretSum node n + f node n))"
    by (simp add: addRegrets_def)
  have "mNodeMap (addRegrets t k (Suc n) f) k = Some (regretSum_set nd' n (regretSum nd' n + f nd' n))"
    unfolding step using nd'(1) by (simp add: node_upd_def node_at_def)
  moreover have "\<forall>a<length (mRegretSum nd).
       mRegretSum (regretSum_set nd' n (regretSum nd' n + f nd' n)) ! a
         = (if a < Suc n then mRegretSum nd ! a + f nd a else mRegretSum nd ! a)"
  proof (intro allI impI)
    fix a assume a: "a < length (mRegretSum nd)"
    note old = nd'(6)[rule_format, OF a]
    show "mRegretSum (regretSum_set nd' n (regretSum nd' n + f nd' n)) ! a
         = (if a < Suc n then mRegretSum nd ! a + f nd a else mRegretSum nd ! a)"
    proof (cases "a = n")
      case True
      then show ?thesis using a nd'(5) old f
        by (simp add: regretSum_set_def regretSum_def)
    next
      case False
      then show ?thesis using a nd'(5) old
        by (simp add: regretSum_set_def less_Suc_eq)
    qed
  qed
  moreover have "mCurrentStrategy (regretSum_set nd' n (regretSum nd' n + f nd' n)) = mCurrentStrategy nd"
    "mStrategySum (regretSum_set nd' n (regretSum nd' n + f nd' n)) = mStrategySum nd"
    "mActionNum (regretSum_set nd' n (regretSum nd' n + f nd' n)) = mActionNum nd"
    "length (mRegretSum (regretSum_set nd' n (regretSum nd' n + f nd' n))) = length (mRegretSum nd)"
    using nd'(2,3,4,5) by (simp_all add: regretSum_set_def)
  ultimately show ?case by blast
qed

lemma CFR_learner_unfold:
  assumes "\<not> isGameOver game" and "\<not> isChanceNode game" and "mUpdate tr ! currentPlayer game"
  shows "CFR game playerIndex p_i p_o tr =
    (case for_loop (actionNum game)
            (\<lambda>a (utils, nodeUtil, t).
               case (if currentPlayer game = playerIndex
                     then CFR (takeAction game a) playerIndex
                            (p_i * strategy (node_at t (infoSetStr game)) ! a) p_o t
                     else CFR (takeAction game a) playerIndex
                            p_i (p_o * strategy (node_at t (infoSetStr game)) ! a) t) of
                 Inl e \<Rightarrow> Inl e
               | Inr (u, t') \<Rightarrow>
                   Inr (utils @ [u], nodeUtil + strategy (node_at t' (infoSetStr game)) ! a * u, t'))
            ([], 0, fetchNode (touch tr) (infoSetStr game) (actionNum game)) of
       Inl e \<Rightarrow> Inl e
     | Inr (utils, nodeUtil, tr2) \<Rightarrow>
         if currentPlayer game = playerIndex then
           let tr3 = addRegrets tr2 (infoSetStr game) (actionNum game)
                       (\<lambda>node a. p_o * (utils ! a - nodeUtil))
           in Inr (nodeUtil, node_upd tr3 (infoSetStr game)
                               (\<lambda>node. strategySum node (strategy node) p_i))
         else Inr (nodeUtil, tr2))"
  by (subst CFR.simps) (simp add: Let_def assms)

text \<open>
  C1. Let vanilla CFR return at a state that is neither terminal nor a chance node and
  whose actor is a learning player, and let \<open>\<sigma>\<close> be the current strategy of the state's
  table when the loop over the actions starts (the table is created first when the key
  is new). Then the calls on the successors, in order and each on the trainer state the
  previous one left, are made with reach \<open>(p_i * \<sigma>[a], p_o)\<close> when the actor is the
  learner and \<open>(p_i, p_o * \<sigma>[a])\<close> otherwise; the value returned is the sum of
  \<open>\<sigma>[a] * u[a]\<close> over the values \<open>u[a]\<close> of these calls; when the actor is the learner, the
  cumulative regret of every action \<open>a\<close> of the table is the one the loop left plus
  \<open>p_o * (u[a] - u)\<close>, after which \<open>strategySum\<close> is applied with \<open>\<sigma>\<close> and weight \<open>p_i\<close>, and
  no other table changes; when the actor is not the learner, the trainer state is the
  one the loop left.
\<close>

theorem CFR_learning_actor:
  assumes ret: "CFR game playerIndex p_i p_o tr = Inr (nodeUtil, tr')"
    and over: "\<not> isGameOver game" and chance: "\<not> isChanceNode game"
    and learn: "mUpdate tr ! currentPlayer game"
  shows "\<exists>\<sigma> utils ts.
      \<sigma> = strategy (node_at (fetchNode (touch tr) (infoSetStr game) (actionNum game)) (infoSetStr game))
    \<and> length utils = actionNum game \<and> length ts = Suc (actionNum game)
    \<and> ts ! 0 = fetchNode (touch tr) (infoSetStr game) (actionNum game)
    \<and> (\<forall>a<actionNum game.
          CFR (takeAction game a) playerIndex
            (if currentPlayer game = playerIndex then p_i * \<sigma> ! a else p_i)
            (if currentPlayer game = playerIndex then p_o else p_o * \<sigma> ! a) (ts ! a)
          = Inr (utils ! a, ts ! Suc a))
    \<and> nodeUtil = (\<Sum>a<actionNum game. \<sigma> ! a * utils ! a)
    \<and> (if currentPlayer game = playerIndex
        then (\<exists>nodeR.
               (\<forall>a<actionNum game. a < length (mRegretSum (node_at (ts ! actionNum game) (infoSetStr game))) \<longrightarrow>
                  regretSum nodeR a
                    = regretSum (node_at (ts ! actionNum game) (infoSetStr game)) a
                      + p_o * (utils ! a - nodeUtil))
             \<and> mStrategySum nodeR = mStrategySum (node_at (ts ! actionNum game) (infoSetStr game))
             \<and> node_at tr' (infoSetStr game) = strategySum nodeR \<sigma> p_i
             \<and> (\<forall>k. k \<noteq> infoSetStr game \<longrightarrow> mNodeMap tr' k = mNodeMap (ts ! actionNum game) k))
        else tr' = ts ! actionNum game)"
proof -
  let ?k = "infoSetStr game" and ?n = "actionNum game" and ?pl = "currentPlayer game"
  let ?t1 = "fetchNode (touch tr) ?k ?n"
  let ?\<sigma> = "strategy (node_at ?t1 ?k)"
  let ?call = "\<lambda>a t. if ?pl = playerIndex
                       then CFR (takeAction game a) playerIndex (p_i * strategy (node_at t ?k) ! a) p_o t
                       else CFR (takeAction game a) playerIndex p_i (p_o * strategy (node_at t ?k) ! a) t"
  let ?body = "\<lambda>a (utils, nodeUtil, t).
                 case ?call a t of
                   Inl e \<Rightarrow> Inl e
                 | Inr (u, t') \<Rightarrow> Inr (utils @ [u], nodeUtil + strategy (node_at t' ?k) ! a * u, t')"
  obtain utils tr2 where
    loop: "for_loop ?n ?body ([], 0, ?t1) = Inr (utils, nodeUtil, tr2)"
    and fin: "tr' = (if ?pl = playerIndex
                     then node_upd (addRegrets tr2 ?k ?n (\<lambda>node a. p_o * (utils ! a - nodeUtil))) ?k
                            (\<lambda>node. strategySum node (strategy node) p_i)
                     else tr2)"
  proof -
    from ret have E:
      "(case for_loop ?n ?body ([], 0, ?t1) of
          Inl e \<Rightarrow> Inl e
        | Inr (utils, nodeUtil, tr2) \<Rightarrow>
            if ?pl = playerIndex then
              let tr3 = addRegrets tr2 ?k ?n (\<lambda>node a. p_o * (utils ! a - nodeUtil))
              in Inr (nodeUtil, node_upd tr3 ?k (\<lambda>node. strategySum node (strategy node) p_i))
            else Inr (nodeUtil, tr2)) = Inr (nodeUtil, tr')"
      unfolding CFR_learner_unfold[OF over chance learn] .
    show ?thesis
    proof (cases "for_loop ?n ?body ([], 0, ?t1)")
      case (Inl e)
      then show ?thesis using E by simp
    next
      case (Inr r)
      obtain us v t2 where r: "r = (us, v, t2)" by (cases r)
      have v: "v = nodeUtil" using E Inr r by (simp add: Let_def split: if_splits)
      have t: "tr' = (if ?pl = playerIndex
                      then node_upd (addRegrets t2 ?k ?n (\<lambda>node a. p_o * (us ! a - nodeUtil))) ?k
                             (\<lambda>node. strategySum node (strategy node) p_i)
                      else t2)"
        using E Inr r by (auto simp: Let_def split: if_splits)
      show ?thesis
        by (rule that[of us t2]) (use Inr r v t in simp_all)
    qed
  qed
  from children_loop[OF loop] obtain ts where ts:
    "length utils = ?n" "length ts = Suc ?n" "ts ! 0 = ?t1" "ts ! ?n = tr2"
    "\<forall>a<?n. ?call a (ts ! a) = Inr (utils ! a, ts ! Suc a)"
    "nodeUtil = (\<Sum>a<?n. strategy (node_at (ts ! Suc a) ?k) ! a * utils ! a)"
    by blast
  obtain nd1 where nd1: "mNodeMap ?t1 ?k = Some nd1" using fetchNode_has by blast
  have keep: "a \<le> ?n \<Longrightarrow> keeps_strategies ?t1 (ts ! a)" for a
  proof (induction a)
    case 0
    then show ?case using ts(3) by (simp add: keeps_refl)
  next
    case (Suc a)
    then have a: "a < ?n" and k: "keeps_strategies ?t1 (ts ! a)" by simp_all
    from ts(5) a have "?call a (ts ! a) = Inr (utils ! a, ts ! Suc a)" by simp
    then have "keeps_strategies (ts ! a) (ts ! Suc a)"
      by (cases "?pl = playerIndex") (simp_all add: CFR_keeps)
    with k show ?case by (rule keeps_trans)
  qed
  have sig: "a \<le> ?n \<Longrightarrow> strategy (node_at (ts ! a) ?k) = ?\<sigma>" for a
    using keeps_strategy(1)[OF keep nd1] by simp
  have calls: "\<forall>a<?n.
          CFR (takeAction game a) playerIndex
            (if ?pl = playerIndex then p_i * ?\<sigma> ! a else p_i)
            (if ?pl = playerIndex then p_o else p_o * ?\<sigma> ! a) (ts ! a)
          = Inr (utils ! a, ts ! Suc a)"
  proof (intro allI impI)
    fix a assume a: "a < ?n"
    have s: "strategy (node_at (ts ! a) ?k) = ?\<sigma>" using sig[of a] a by simp
    from ts(5) a have c: "?call a (ts ! a) = Inr (utils ! a, ts ! Suc a)" by simp
    show "CFR (takeAction game a) playerIndex
            (if ?pl = playerIndex then p_i * ?\<sigma> ! a else p_i)
            (if ?pl = playerIndex then p_o else p_o * ?\<sigma> ! a) (ts ! a)
          = Inr (utils ! a, ts ! Suc a)"
    proof (cases "?pl = playerIndex")
      case True
      then show ?thesis using c unfolding s by simp
    next
      case False
      then show ?thesis using c unfolding s by simp
    qed
  qed
  have util: "nodeUtil = (\<Sum>a<?n. ?\<sigma> ! a * utils ! a)"
    unfolding ts(6) by (rule sum.cong) (simp_all add: sig)
  have last: "(if ?pl = playerIndex
        then (\<exists>nodeR.
               (\<forall>a<?n. a < length (mRegretSum (node_at (ts ! ?n) ?k)) \<longrightarrow>
                  regretSum nodeR a = regretSum (node_at (ts ! ?n) ?k) a + p_o * (utils ! a - nodeUtil))
             \<and> mStrategySum nodeR = mStrategySum (node_at (ts ! ?n) ?k)
             \<and> node_at tr' ?k = strategySum nodeR ?\<sigma> p_i
             \<and> (\<forall>k. k \<noteq> ?k \<longrightarrow> mNodeMap tr' k = mNodeMap (ts ! ?n) k))
        else tr' = ts ! ?n)"
  proof (cases "?pl = playerIndex")
    case False
    then show ?thesis using fin ts(4) by simp
  next
    case True
    obtain nd2 where nd2: "mNodeMap tr2 ?k = Some nd2"
      using keeps_strategy(2)[OF keep[of ?n] nd1] ts(4) by auto
    let ?f = "\<lambda>(node::Node) a. p_o * (utils ! a - nodeUtil)"
    let ?t3 = "addRegrets tr2 ?k ?n ?f"
    from addRegrets_node[OF nd2, of ?f ?n] obtain nodeR where R:
      "mNodeMap ?t3 ?k = Some nodeR" "mCurrentStrategy nodeR = mCurrentStrategy nd2"
      "mStrategySum nodeR = mStrategySum nd2"
      "\<forall>a<length (mRegretSum nd2).
          mRegretSum nodeR ! a = (if a < ?n then mRegretSum nd2 ! a + ?f nd2 a else mRegretSum nd2 ! a)"
      by auto
    have n2: "node_at (ts ! ?n) ?k = nd2" using nd2 ts(4) by (simp add: node_at_def)
    have s2: "strategy nodeR = ?\<sigma>" using sig[of ?n] n2 R(2) by (simp add: strategy_def)
    have A: "node_at tr' ?k = strategySum nodeR ?\<sigma> p_i"
      using fin True R(1) s2 by (simp add: node_upd_def node_at_def)
    have B: "\<forall>k. k \<noteq> ?k \<longrightarrow> mNodeMap tr' k = mNodeMap (ts ! ?n) k"
      using fin True ts(4) by (simp add: node_upd_def addRegrets_other)
    have C: "\<forall>a<?n. a < length (mRegretSum (node_at (ts ! ?n) ?k)) \<longrightarrow>
                  regretSum nodeR a = regretSum (node_at (ts ! ?n) ?k) a + p_o * (utils ! a - nodeUtil)"
      using R(4) n2 by (simp add: regretSum_def)
    have D: "mStrategySum nodeR = mStrategySum (node_at (ts ! ?n) ?k)"
      using R(3) n2 by simp
    have "\<exists>nodeR.
               (\<forall>a<?n. a < length (mRegretSum (node_at (ts ! ?n) ?k)) \<longrightarrow>
                  regretSum nodeR a = regretSum (node_at (ts ! ?n) ?k) a + p_o * (utils ! a - nodeUtil))
             \<and> mStrategySum nodeR = mStrategySum (node_at (ts ! ?n) ?k)
             \<and> node_at tr' ?k = strategySum nodeR ?\<sigma> p_i
             \<and> (\<forall>k. k \<noteq> ?k \<longrightarrow> mNodeMap tr' k = mNodeMap (ts ! ?n) k)"
      by (intro exI[of _ nodeR] conjI A B C D)
    then show ?thesis unfolding if_P[OF True] .
  qed
  show ?thesis
    by (intro exI[of _ ?\<sigma>] exI[of _ utils] exI[of _ ts] conjI refl ts(1) ts(2) ts(3) calls util last)
qed

subsection \<open>A game of one decision and a trainer for it\<close>

definition leaf :: "real list \<Rightarrow> game" where
  "leaf ps = Game True False 1 [] 0 ps []"

definition decision :: "nat \<Rightarrow> string \<Rightarrow> game list \<Rightarrow> game" where
  "decision player key succs = Game False False player key 0 [] succs"

lemma leaf_sel [simp]:
  "isGameOver (leaf ps)" "payoff (leaf ps) i = ps ! i" "currentPlayer (leaf ps) = 1"
  by (simp_all add: leaf_def payoff_def)

lemma decision_sel [simp]:
  "\<not> isGameOver (decision pl k cs)" "\<not> isChanceNode (decision pl k cs)"
  "currentPlayer (decision pl k cs) = pl" "infoSetStr (decision pl k cs) = k"
  "actionNum (decision pl k cs) = length cs" "takeAction (decision pl k cs) a = cs ! a"
  by (simp_all add: decision_def actionNum_def takeAction_def)

lemma CFR_terminal: "isGameOver g \<Longrightarrow> CFR g p p_i p_o t = Inr (payoff g p, touch t)"
  by (subst CFR.simps) simp

definition example_game :: game where
  "example_game = decision 0 ''a'' [leaf [1, - 1], leaf [- 1, 1]]"

definition example_trainer :: "unit trainer" where
  "example_trainer =
     \<lparr> randomGenerator = (), mNodeMap = Map.empty, mNodeTouchedCnt = 0,
       mGame = example_game, mModeStr = ''standard'',
       mFixedStrategies = [Map.empty, Map.empty], mUpdate = [True, True] \<rparr>"

lemma example_CFR:
  "\<exists>t'. CFR example_game 0 1 1 example_trainer = Inr (0, t')
      \<and> mNodeMap t' ''a'' = Some (\<lparr> mActionNum = 2, mRegretSum = [1, - 1], mCurrentStrategy = [1 / 2, 1 / 2],
            mStrategySum = [1 / 2, 1 / 2], mAverageStrategy = [0, 0], alreadyCalculated = False,
            strategyNeedsUpdate = True \<rparr>)"
  unfolding example_game_def
  by (simp add: CFR_learner_unfold CFR_terminal for_loop_Suc example_trainer_def
      fetchNode_def node_at_def node_upd_def addRegrets_def strategySum_def regretSum_set_def regretSum_def
      strategy_def newNode_def actionNum_of_def replicate_2 upt_2 touch_def Let_def)

theorem CFR_learning_actor_witness:
  "\<exists>tr'. CFR example_game 0 1 1 example_trainer = Inr (0, tr') \<and>
    (\<exists>\<sigma> utils ts.
      \<sigma> = strategy (node_at (fetchNode (touch example_trainer) (infoSetStr example_game)
                              (actionNum example_game)) (infoSetStr example_game))
    \<and> length utils = actionNum example_game \<and> length ts = Suc (actionNum example_game)
    \<and> ts ! 0 = fetchNode (touch example_trainer) (infoSetStr example_game) (actionNum example_game)
    \<and> (\<forall>a<actionNum example_game.
          CFR (takeAction example_game a) 0
            (if currentPlayer example_game = 0 then 1 * \<sigma> ! a else 1)
            (if currentPlayer example_game = 0 then 1 else 1 * \<sigma> ! a) (ts ! a)
          = Inr (utils ! a, ts ! Suc a))
    \<and> 0 = (\<Sum>a<actionNum example_game. \<sigma> ! a * utils ! a)
    \<and> (if currentPlayer example_game = 0
        then (\<exists>nodeR.
               (\<forall>a<actionNum example_game.
                  a < length (mRegretSum (node_at (ts ! actionNum example_game) (infoSetStr example_game))) \<longrightarrow>
                  regretSum nodeR a
                    = regretSum (node_at (ts ! actionNum example_game) (infoSetStr example_game)) a
                      + 1 * (utils ! a - 0))
             \<and> mStrategySum nodeR
                 = mStrategySum (node_at (ts ! actionNum example_game) (infoSetStr example_game))
             \<and> node_at tr' (infoSetStr example_game) = strategySum nodeR \<sigma> 1
             \<and> (\<forall>k. k \<noteq> infoSetStr example_game \<longrightarrow>
                    mNodeMap tr' k = mNodeMap (ts ! actionNum example_game) k))
        else tr' = ts ! actionNum example_game))"
proof -
  from example_CFR obtain t' where ret: "CFR example_game 0 1 1 example_trainer = Inr (0, t')"
    by blast
  have over: "\<not> isGameOver example_game" and chance: "\<not> isChanceNode example_game"
    and learn: "mUpdate example_trainer ! currentPlayer example_game"
    by (simp_all add: example_game_def example_trainer_def)
  show ?thesis
    by (rule exI[of _ t'], rule conjI[OF ret CFR_learning_actor[OF ret over chance learn]])
qed

definition first_action :: "unit sampler" where
  "first_action weights rng = (0, rng)"

definition example_reset :: "unit reset" where
  "example_reset skipChanceAction g rng = (example_game, rng)"

definition example_mode :: "string \<Rightarrow> unit trainer" where
  "example_mode mode = example_trainer\<lparr> mModeStr := mode \<rparr>"

definition after_solver ::
  "real list \<Rightarrow> nat \<Rightarrow> ('r trainer \<Rightarrow> 'r trainer) \<Rightarrow> error + real \<times> 'r trainer \<Rightarrow> error + real list \<times> 'r trainer" where
  "after_solver utils p refresh r =
     (case r of Inl e \<Rightarrow> Inl e | Inr (u, tr) \<Rightarrow> Inr (utils[p := u], refresh tr))"

lemma resetGame_fields [simp]:
  "mUpdate (resetGame R b tr) = mUpdate tr"
  "mModeStr (resetGame R b tr) = mModeStr tr"
  "mNodeMap (resetGame R b tr) = mNodeMap tr"
  by (simp_all add: resetGame_def split: prod.splits)

text \<open>
  C5. For a learning player \<open>p\<close>, one pass of the training loop does the following. Mode
  \<open>standard\<close>: \<open>resetGame(false)\<close>, then \<open>CFR(game, p, 1, 1)\<close>, then \<open>updateStrategy\<close> on
  every table of the node map. Mode \<open>chance\<close>: \<open>resetGame(true)\<close>, the chance-sampling
  solver with reach \<open>(1, 1)\<close>, then \<open>updateStrategy\<close> on every table. Modes \<open>external\<close> and
  \<open>outcome\<close>: \<open>resetGame(true)\<close> and the solver (outcome sampling with \<open>(1, 1, 1)\<close> and the
  first component of its result), with no pass over the tables afterwards.
\<close>

theorem train_player_modes:
  assumes "mUpdate tr ! p"
  shows "(mModeStr tr = ''standard'' \<longrightarrow>
            train_player D R i p (utils, tr) =
              after_solver utils p updateAll
                (CFR (mGame (resetGame R False tr)) p 1 1 (resetGame R False tr)))
       \<and> (mModeStr tr = ''chance'' \<longrightarrow>
            train_player D R i p (utils, tr) =
              after_solver utils p updateAll
                (chanceSamplingCFR D (mGame (resetGame R True tr)) p 1 1 (resetGame R True tr)))
       \<and> (mModeStr tr = ''external'' \<longrightarrow>
            train_player D R i p (utils, tr) =
              after_solver utils p (\<lambda>t. t)
                (externalSamplingCFR D (mGame (resetGame R True tr)) p (resetGame R True tr)))
       \<and> (mModeStr tr = ''outcome'' \<longrightarrow>
            train_player D R i p (utils, tr) =
              after_solver utils p (\<lambda>t. t)
                (map_sum (\<lambda>e. e) (\<lambda>r. (fst (fst r), snd r))
                  (outcomeSamplingCFR D (mGame (resetGame R True tr)) p i 1 1 1 (resetGame R True tr))))
       \<and> (\<forall>t k. mNodeMap (updateAll t) k = map_option updateStrategy (mNodeMap t k))"
  using assms
  by (auto simp: train_player_def resetGame_default_def after_solver_def updateAll_def Let_def
      split: sum.splits prod.splits)

theorem train_player_modes_witness:
  "train_player first_action example_reset 0 0 ([0, 0], example_mode ''standard'') =
     after_solver [0, 0] 0 updateAll
       (CFR (mGame (resetGame example_reset False (example_mode ''standard''))) 0 1 1
          (resetGame example_reset False (example_mode ''standard'')))
   \<and> train_player first_action example_reset 0 0 ([0, 0], example_mode ''chance'') =
     after_solver [0, 0] 0 updateAll
       (chanceSamplingCFR first_action (mGame (resetGame example_reset True (example_mode ''chance''))) 0 1 1
          (resetGame example_reset True (example_mode ''chance'')))
   \<and> train_player first_action example_reset 0 0 ([0, 0], example_mode ''external'') =
     after_solver [0, 0] 0 (\<lambda>t. t)
       (externalSamplingCFR first_action (mGame (resetGame example_reset True (example_mode ''external''))) 0
          (resetGame example_reset True (example_mode ''external'')))
   \<and> train_player first_action example_reset 0 0 ([0, 0], example_mode ''outcome'') =
     after_solver [0, 0] 0 (\<lambda>t. t)
       (map_sum (\<lambda>e. e) (\<lambda>r. (fst (fst r), snd r))
          (outcomeSamplingCFR first_action (mGame (resetGame example_reset True (example_mode ''outcome''))) 0 0 1 1 1
             (resetGame example_reset True (example_mode ''outcome''))))"
proof -
  have u: "mUpdate (example_mode m) ! 0" for m
    by (simp add: example_mode_def example_trainer_def)
  have m: "mModeStr (example_mode m) = m" for m
    by (simp add: example_mode_def)
  note s = train_player_modes[OF u[of "''standard''"], of first_action example_reset 0 "[0, 0]"]
  note c = train_player_modes[OF u[of "''chance''"], of first_action example_reset 0 "[0, 0]"]
  note e = train_player_modes[OF u[of "''external''"], of first_action example_reset 0 "[0, 0]"]
  note o = train_player_modes[OF u[of "''outcome''"], of first_action example_reset 0 "[0, 0]"]
  show ?thesis
    by (intro conjI
          s[THEN conjunct1, THEN mp, OF m]
          c[THEN conjunct2, THEN conjunct1, THEN mp, OF m]
          e[THEN conjunct2, THEN conjunct2, THEN conjunct1, THEN mp, OF m]
          o[THEN conjunct2, THEN conjunct2, THEN conjunct2, THEN conjunct1, THEN mp, OF m])
qed

subsection \<open>Fixed players under the sampling solvers\<close>

lemma externalSamplingCFR_terminal:
  "isGameOver g \<Longrightarrow> externalSamplingCFR D g p t = Inr (payoff g p, touch t)"
  by (subst externalSamplingCFR.simps) simp

lemma outcomeSamplingCFR_terminal:
  "isGameOver g \<Longrightarrow> outcomeSamplingCFR D g p it p_i p_o s t = Inr ((payoff g p / s, 1), touch t)"
  by (subst outcomeSamplingCFR.simps) simp

text \<open>
  C8, as the code has it. At a state that is not terminal and whose current player is a
  fixed-strategy player, external-sampling and outcome-sampling CFR stop with
  \<open>IncompatibleMode\<close>: no table is created or changed and no successor is visited.
\<close>

theorem sampling_rejects_fixed_actor:
  assumes "\<not> isGameOver game" and "\<not> mUpdate tr ! currentPlayer game"
  shows "externalSamplingCFR D game playerIndex tr = Inl IncompatibleMode
       \<and> outcomeSamplingCFR D game playerIndex iteration p_i p_o s tr = Inl IncompatibleMode"
  using assms
  by (simp add: externalSamplingCFR.simps[of D game] outcomeSamplingCFR.simps[of D game] Let_def)

definition tr_fixed :: "unit trainer" where
  "tr_fixed =
     \<lparr> randomGenerator = (), mNodeMap = Map.empty, mNodeTouchedCnt = 0,
       mGame = decision 1 ''a'' [leaf [1, - 1], leaf [- 1, 1]], mModeStr = ''external'',
       mFixedStrategies = [Map.empty, Map.empty], mUpdate = [True, False] \<rparr>"

theorem sampling_rejects_fixed_actor_witness:
  "externalSamplingCFR first_action (decision 1 ''a'' [leaf [1, - 1], leaf [- 1, 1]]) 0 tr_fixed
     = Inl IncompatibleMode
   \<and> outcomeSamplingCFR first_action (decision 1 ''a'' [leaf [1, - 1], leaf [- 1, 1]]) 0 0 1 1 1 tr_fixed
     = Inl IncompatibleMode"
proof -
  have 1: "\<not> isGameOver (decision 1 ''a'' [leaf [1, - 1], leaf [- 1, 1]])"
    by simp
  have 2: "\<not> mUpdate tr_fixed ! currentPlayer (decision 1 ''a'' [leaf [1, - 1], leaf [- 1, 1]])"
    by (simp add: tr_fixed_def)
  show ?thesis by (rule sampling_rejects_fixed_actor[OF 1 2])
qed

text \<open>
  C8, as stated, fails at a terminal state: the terminal test comes before the
  assertion, so a terminal state that reports a fixed-strategy player as its current
  player returns the payoff.
\<close>

theorem terminal_state_of_fixed_player_returns:
  "\<not> mUpdate tr_fixed ! currentPlayer (leaf [1, - 1])
   \<and> externalSamplingCFR first_action (leaf [1, - 1]) 0 tr_fixed = Inr (1, touch tr_fixed)
   \<and> outcomeSamplingCFR first_action (leaf [1, - 1]) 0 0 1 1 1 tr_fixed = Inr ((1, 1), touch tr_fixed)"
  by (simp add: externalSamplingCFR_terminal outcomeSamplingCFR_terminal tr_fixed_def)

section \<open>Outcome sampling\<close>

subsection \<open>updateStrategy is idempotent\<close>

lemma nth_beyond: "length xs \<le> a \<Longrightarrow> xs ! a = [] ! (a - length xs)"
proof (induction xs arbitrary: a)
  case Nil
  then show ?case by simp
next
  case (Cons x xs)
  then obtain b where "a = Suc b" by (cases a) auto
  then show ?case using Cons by simp
qed

lemma fold_index_update_any:
  "fold (\<lambda>a cs. cs[a := f a (cs ! a)]) [0..<k] xs
     = map (\<lambda>i. if i < k then f i (xs ! i) else xs ! i) [0..<length xs]"
proof (induction k)
  case 0
  then show ?case by (simp add: map_nth)
next
  case (Suc k)
  show ?case
    unfolding upt_Suc_append[OF le0] fold_append o_apply Suc.IH
    by (rule nth_equalityI) (auto simp: nth_list_update less_Suc_eq)
qed

definition pos_sum :: "real list \<Rightarrow> nat \<Rightarrow> nat \<Rightarrow> real" where
  "pos_sum r A L = (\<Sum>a<A. if a < L then max (r ! a) 0 else [] ! (a - L))"

lemma positivePart_loop_any:
  "positivePart_loop r A cs =
     (map (\<lambda>i. if i < A then max (r ! i) 0 else cs ! i) [0..<length cs], pos_sum r A (length cs))"
proof (induction A)
  case 0
  then show ?case by (simp add: positivePart_loop_def pos_sum_def map_nth)
next
  case (Suc A)
  let ?F = "\<lambda>a (cs, normalizingSum).
             let cs' = cs[a := (if r ! a > 0 then r ! a else 0)]
             in (cs', normalizingSum + cs' ! a)"
  let ?cs = "map (\<lambda>i. if i < A then max (r ! i) 0 else cs ! i) [0..<length cs]"
  let ?v = "if r ! A > 0 then r ! A else 0"
  have v: "?v = max (r ! A) 0" by (simp add: max_def)
  have upd: "?cs[A := ?v] = map (\<lambda>i. if i < Suc A then max (r ! i) 0 else cs ! i) [0..<length cs]"
    unfolding v by (rule nth_equalityI) (auto simp: nth_list_update less_Suc_eq)
  have rd: "(?cs[A := ?v]) ! A = (if A < length cs then max (r ! A) 0 else [] ! (A - length cs))"
  proof (cases "A < length cs")
    case True
    then show ?thesis unfolding v by simp
  next
    case False
    then have "length (?cs[A := ?v]) \<le> A" by simp
    from nth_beyond[OF this] False show ?thesis by simp
  qed
  have "positivePart_loop r (Suc A) cs = ?F A (positivePart_loop r A cs)"
    by (simp add: positivePart_loop_def)
  also have "\<dots> = ?F A (?cs, pos_sum r A (length cs))"
    by (simp only: Suc.IH)
  also have "\<dots> = (?cs[A := ?v], pos_sum r A (length cs) + (?cs[A := ?v]) ! A)"
    by (simp only: prod.case Let_def)
  also have "\<dots> = (map (\<lambda>i. if i < Suc A then max (r ! i) 0 else cs ! i) [0..<length cs],
                    pos_sum r (Suc A) (length cs))"
    unfolding rd unfolding upd by (simp add: pos_sum_def)
  finally show ?case .
qed

lemma normalize_loop_any:
  "normalize_loop Z A cs =
     map (\<lambda>i. if i < A then (if Z > 0 then cs ! i / Z else 1 / real A) else cs ! i) [0..<length cs]"
proof -
  have "normalize_loop Z A cs =
          fold (\<lambda>a cs. cs[a := (if Z > 0 then cs ! a / Z else 1 / real A)]) [0..<A] cs"
    unfolding normalize_loop_def
    by (rule arg_cong[where f="\<lambda>f. fold f [0..<A] cs"]) (auto intro!: ext)
  then show ?thesis
    using fold_index_update_any[of "\<lambda>a x. if Z > 0 then x / Z else 1 / real A" A cs] by simp
qed

definition regretMatched :: "Node \<Rightarrow> real list" where
  "regretMatched nd =
     map (\<lambda>i. if i < actionNum_of nd
               then (if pos_sum (mRegretSum nd) (actionNum_of nd) (length (mCurrentStrategy nd)) > 0
                     then max (mRegretSum nd ! i) 0
                          / pos_sum (mRegretSum nd) (actionNum_of nd) (length (mCurrentStrategy nd))
                     else 1 / real (actionNum_of nd))
               else mCurrentStrategy nd ! i)
         [0..<length (mCurrentStrategy nd)]"

lemma updateStrategy_any:
  "updateStrategy nd =
     (if \<not> strategyNeedsUpdate nd then nd else nd\<lparr> mCurrentStrategy := regretMatched nd \<rparr>)"
  by (simp add: updateStrategy_def positivePart_loop_any normalize_loop_any regretMatched_def)

lemma regretMatched_idem:
  "regretMatched (nd\<lparr> mCurrentStrategy := regretMatched nd \<rparr>) = regretMatched nd"
proof -
  have l: "length (regretMatched nd) = length (mCurrentStrategy nd)"
    by (simp add: regretMatched_def)
  show ?thesis
  proof (rule nth_equalityI)
    show "length (regretMatched (nd\<lparr> mCurrentStrategy := regretMatched nd \<rparr>)) = length (regretMatched nd)"
      by (simp add: regretMatched_def)
  next
    fix i assume "i < length (regretMatched (nd\<lparr> mCurrentStrategy := regretMatched nd \<rparr>))"
    then have i: "i < length (mCurrentStrategy nd)" by (simp add: regretMatched_def)
    have "regretMatched (nd\<lparr> mCurrentStrategy := regretMatched nd \<rparr>) ! i =
          (if i < actionNum_of nd
               then (if pos_sum (mRegretSum nd) (actionNum_of nd) (length (mCurrentStrategy nd)) > 0
                     then max (mRegretSum nd ! i) 0
                          / pos_sum (mRegretSum nd) (actionNum_of nd) (length (mCurrentStrategy nd))
                     else 1 / real (actionNum_of nd))
               else regretMatched nd ! i)"
      using i by (simp add: regretMatched_def[of "nd\<lparr> mCurrentStrategy := regretMatched nd \<rparr>"] l actionNum_of_def)
    also have "\<dots> = regretMatched nd ! i"
      using i by (simp add: regretMatched_def[of nd])
    finally show "regretMatched (nd\<lparr> mCurrentStrategy := regretMatched nd \<rparr>) ! i = regretMatched nd ! i" .
  qed
qed

lemma updateStrategy_idem: "updateStrategy (updateStrategy nd) = updateStrategy nd"
  by (simp add: updateStrategy_any regretMatched_idem)

lemma updateStrategy_fields [simp]:
  "mActionNum (updateStrategy nd) = mActionNum nd"
  "mRegretSum (updateStrategy nd) = mRegretSum nd"
  "mStrategySum (updateStrategy nd) = mStrategySum nd"
  "length (mCurrentStrategy (updateStrategy nd)) = length (mCurrentStrategy nd)"
  by (simp_all add: updateStrategy_any regretMatched_def)

subsection \<open>The recursion leaves a refreshed strategy as it is\<close>

text \<open>
  Outcome sampling refreshes a table on the way down and changes regrets and strategy
  sums on the way back. For every table that exists when a call starts, the current
  strategy when the call returns is the one at the start or the one \<open>updateStrategy\<close>
  derives from the table at the start.
\<close>

definition settles :: "'r trainer \<Rightarrow> 'r trainer \<Rightarrow> bool" where
  "settles t t' \<longleftrightarrow>
     (\<forall>k nd. mNodeMap t k = Some nd \<longrightarrow>
        (\<exists>nd'. mNodeMap t' k = Some nd' \<and> mActionNum nd' = mActionNum nd
              \<and> length (mRegretSum nd') = length (mRegretSum nd)
              \<and> (mCurrentStrategy nd' = mCurrentStrategy nd
                 \<or> mCurrentStrategy nd' = mCurrentStrategy (updateStrategy nd))))"

lemma settles_same_map: "mNodeMap t' = mNodeMap t \<Longrightarrow> settles t t'"
  by (simp add: settles_def)

lemma settles_keeps:
  assumes "settles t t2" and "keeps_strategies t2 t'"
  shows "settles t t'"
  unfolding settles_def
proof (intro allI impI)
  fix k nd assume "mNodeMap t k = Some nd"
  with assms(1) obtain nd2 where nd2: "mNodeMap t2 k = Some nd2" "mActionNum nd2 = mActionNum nd"
    "length (mRegretSum nd2) = length (mRegretSum nd)"
    "mCurrentStrategy nd2 = mCurrentStrategy nd \<or> mCurrentStrategy nd2 = mCurrentStrategy (updateStrategy nd)"
    unfolding settles_def by blast
  from assms(2) nd2(1) obtain nd' where nd': "mNodeMap t' k = Some nd'"
    "mCurrentStrategy nd' = mCurrentStrategy nd2" "mActionNum nd' = mActionNum nd2"
    "length (mRegretSum nd') = length (mRegretSum nd2)"
    unfolding keeps_strategies_def by blast
  show "\<exists>nd'. mNodeMap t' k = Some nd' \<and> mActionNum nd' = mActionNum nd
              \<and> length (mRegretSum nd') = length (mRegretSum nd)
              \<and> (mCurrentStrategy nd' = mCurrentStrategy nd
                 \<or> mCurrentStrategy nd' = mCurrentStrategy (updateStrategy nd))"
    using nd2 nd' by auto
qed

lemma refreshed_node:
  assumes "mNodeMap t j = Some nd"
  shows "mNodeMap (node_upd (fetchNode (touch t) k n) k updateStrategy) j
           = Some (if j = k then updateStrategy nd else nd)"
  using assms by (auto simp: node_upd_def fetchNode_def node_at_def split: option.splits)

lemma settles_refresh:
  assumes "settles t1 t2"
    and "mNodeMap t1 = mNodeMap (node_upd (fetchNode (touch t) k n) k updateStrategy)"
  shows "settles t t2"
  unfolding settles_def
proof (intro allI impI)
  fix j nd assume nd: "mNodeMap t j = Some nd"
  let ?nd1 = "if j = k then updateStrategy nd else nd"
  have "mNodeMap t1 j = Some ?nd1" unfolding assms(2) by (rule refreshed_node[OF nd])
  with assms(1) obtain nd2 where nd2: "mNodeMap t2 j = Some nd2" "mActionNum nd2 = mActionNum ?nd1"
    "length (mRegretSum nd2) = length (mRegretSum ?nd1)"
    "mCurrentStrategy nd2 = mCurrentStrategy ?nd1 \<or> mCurrentStrategy nd2 = mCurrentStrategy (updateStrategy ?nd1)"
    unfolding settles_def by blast
  show "\<exists>nd'. mNodeMap t2 j = Some nd' \<and> mActionNum nd' = mActionNum nd
              \<and> length (mRegretSum nd') = length (mRegretSum nd)
              \<and> (mCurrentStrategy nd' = mCurrentStrategy nd
                 \<or> mCurrentStrategy nd' = mCurrentStrategy (updateStrategy nd))"
  proof (cases "j = k")
    case True
    then show ?thesis using nd2 by (auto simp: updateStrategy_idem)
  next
    case False
    then show ?thesis using nd2 by auto
  qed
qed

lemma sampling_needs_learner:
  assumes "\<not> isGameOver game" and "\<not> mUpdate tr ! currentPlayer game"
  shows "externalSamplingCFR D game playerIndex tr = Inl IncompatibleMode"
    and "outcomeSamplingCFR D game playerIndex iteration p_i p_o s tr = Inl IncompatibleMode"
  using assms
  by (simp_all add: externalSamplingCFR.simps[of D game] outcomeSamplingCFR.simps[of D game] Let_def)

lemma outcomeSamplingCFR_unfold:
  assumes "\<not> isGameOver game" and "mUpdate tr ! currentPlayer game"
  shows "outcomeSamplingCFR D game playerIndex iteration p_i p_o s tr =
    (let infoSet = infoSetStr game; player = currentPlayer game;
         tr1 = node_upd (fetchNode (touch tr) infoSet (actionNum game)) infoSet updateStrategy;
         epsilon = 6 / 10;
         probability =
           (if player = playerIndex
            then map (\<lambda>a. epsilon / real (actionNum game)
                           + (1 - epsilon) * strategy (node_at tr1 infoSet) ! a)
                     [0..<actionNum game]
            else map (\<lambda>a. strategy (node_at tr1 infoSet) ! a) [0..<actionNum game]);
         chooseAction = fst (D probability (randomGenerator tr1));
         rng = snd (D probability (randomGenerator tr1))
     in if chooseAction < actionNum game then
          (case outcomeSamplingCFR D (takeAction game chooseAction) playerIndex iteration
                  (p_i * (if player = playerIndex
                          then strategy (node_at tr1 infoSet) ! chooseAction else 1))
                  (p_o * (if player = playerIndex
                          then 1 else strategy (node_at tr1 infoSet) ! chooseAction))
                  (s * probability ! chooseAction)
                  (tr1\<lparr> randomGenerator := rng \<rparr>) of
             Inl e \<Rightarrow> Inl e
           | Inr r \<Rightarrow>
               (let tr3 =
                      (if player = playerIndex then
                         addRegrets (snd r) infoSet (actionNum game)
                              (\<lambda>node a. if a = chooseAction
                                 then fst (fst r) * p_o * (1 - strategy node ! chooseAction) * snd (fst r)
                                 else - (fst (fst r) * p_o) * snd (fst r) * strategy node ! chooseAction)
                       else node_upd (snd r) infoSet
                              (\<lambda>node. strategySum node (strategy node) (p_o / s)))
                in Inr ((fst (fst r), snd (fst r) * strategy (node_at tr3 infoSet) ! chooseAction), tr3)))
        else Inl IllFormed)"
  using assms
  by (subst outcomeSamplingCFR.simps)
     (simp add: Let_def case_prod_unfold cong: sum.case_cong)

text \<open>What a returning call of the outcome-sampling solver did at a state that is not terminal.\<close>

lemma outcomeSamplingCFR_returns:
  assumes ret: "outcomeSamplingCFR D game playerIndex iteration p_i p_o s tr = Inr ((util, tail'), tr')"
    and over: "\<not> isGameOver game"
  defines "k \<equiv> infoSetStr game" and "n \<equiv> actionNum game"
  defines "tr1 \<equiv> node_upd (fetchNode (touch tr) k n) k updateStrategy"
  defines "q \<equiv> (if currentPlayer game = playerIndex
                 then map (\<lambda>a. (6 / 10) / real n + (1 - 6 / 10) * strategy (node_at tr1 k) ! a) [0..<n]
                 else map (\<lambda>a. strategy (node_at tr1 k) ! a) [0..<n])"
  defines "a' \<equiv> fst (D q (randomGenerator tr1))"
  shows "\<exists>pTail tr2.
           mUpdate tr ! currentPlayer game \<and> a' < n
         \<and> outcomeSamplingCFR D (takeAction game a') playerIndex iteration
              (p_i * (if currentPlayer game = playerIndex then strategy (node_at tr1 k) ! a' else 1))
              (p_o * (if currentPlayer game = playerIndex then 1 else strategy (node_at tr1 k) ! a'))
              (s * q ! a')
              (tr1\<lparr> randomGenerator := snd (D q (randomGenerator tr1)) \<rparr>) = Inr ((util, pTail), tr2)
         \<and> tr' = (if currentPlayer game = playerIndex
                  then addRegrets tr2 k n
                         (\<lambda>node a. if a = a'
                             then util * p_o * (1 - strategy node ! a') * pTail
                             else - (util * p_o) * pTail * strategy node ! a')
                  else node_upd tr2 k (\<lambda>node. strategySum node (strategy node) (p_o / s)))
         \<and> tail' = pTail * strategy (node_at tr' k) ! a'"
proof -
  have learn: "mUpdate tr ! currentPlayer game"
    using ret sampling_needs_learner(2)[OF over, of tr D playerIndex iteration p_i p_o s] by auto
  let ?rec = "outcomeSamplingCFR D (takeAction game a') playerIndex iteration
              (p_i * (if currentPlayer game = playerIndex then strategy (node_at tr1 k) ! a' else 1))
              (p_o * (if currentPlayer game = playerIndex then 1 else strategy (node_at tr1 k) ! a'))
              (s * q ! a')
              (tr1\<lparr> randomGenerator := snd (D q (randomGenerator tr1)) \<rparr>)"
  let ?fin = "\<lambda>r. (if currentPlayer game = playerIndex
                  then addRegrets (snd r) k n
                         (\<lambda>node a. if a = a'
                             then fst (fst r) * p_o * (1 - strategy node ! a') * snd (fst r)
                             else - (fst (fst r) * p_o) * snd (fst r) * strategy node ! a')
                  else node_upd (snd r) k (\<lambda>node. strategySum node (strategy node) (p_o / s)))"
  have E: "(if a' < n then
             (case ?rec of Inl e \<Rightarrow> Inl e
              | Inr r \<Rightarrow> Inr ((fst (fst r), snd (fst r) * strategy (node_at (?fin r) k) ! a'), ?fin r))
           else Inl IllFormed) = Inr ((util, tail'), tr')"
    using ret unfolding outcomeSamplingCFR_unfold[OF over learn] Let_def
      k_def n_def tr1_def q_def a'_def .
  then have a: "a' < n" by (cases "a' < n") simp_all
  have "\<exists>r. ?rec = Inr r
          \<and> Inr ((fst (fst r), snd (fst r) * strategy (node_at (?fin r) k) ! a'), ?fin r)
               = (Inr ((util, tail'), tr') :: error + (real \<times> real) \<times> 'a trainer)"
    using E a by (cases ?rec) (simp_all only: if_True sum.case sum.simps simp_thms)
  then obtain r where r: "?rec = Inr r"
    and out: "Inr ((fst (fst r), snd (fst r) * strategy (node_at (?fin r) k) ! a'), ?fin r)
               = (Inr ((util, tail'), tr') :: error + (real \<times> real) \<times> 'a trainer)"
    by blast
  note out' = out[unfolded sum.inject prod.inject]
  have u: "fst (fst r) = util" and tl: "snd (fst r) * strategy (node_at (?fin r) k) ! a' = tail'"
    and t: "?fin r = tr'"
    using out' by blast+
  have 1: "?rec = Inr ((util, snd (fst r)), snd r)"
    unfolding r u[symmetric] by simp
  have 2: "tr' = (if currentPlayer game = playerIndex
                  then addRegrets (snd r) k n
                         (\<lambda>node a. if a = a'
                             then util * p_o * (1 - strategy node ! a') * snd (fst r)
                             else - (util * p_o) * snd (fst r) * strategy node ! a')
                  else node_upd (snd r) k (\<lambda>node. strategySum node (strategy node) (p_o / s)))"
    unfolding t[symmetric] u ..
  have 3: "tail' = snd (fst r) * strategy (node_at tr' k) ! a'"
    using tl unfolding t by (rule sym)
  show ?thesis
    by (intro exI[of _ "snd (fst r)"] exI[of _ "snd r"] conjI learn a 1 2 3)
qed

lemma outcomeSamplingCFR_settles:
  "outcomeSamplingCFR D g p it p_i p_o s t = Inr (r, t') \<Longrightarrow> settles t t'"
proof (induction g arbitrary: p_i p_o s t r t' rule: game_induct)
  case (step g)
  show ?case
  proof (cases "isGameOver g")
    case True
    then have "t' = touch t" using step.prems by (simp add: outcomeSamplingCFR_terminal)
    then show ?thesis by (simp add: settles_same_map)
  next
    case False
    obtain u tl where r: "r = (u, tl)" by (cases r)
    let ?k = "infoSetStr g" and ?n = "actionNum g"
    let ?t1 = "node_upd (fetchNode (touch t) ?k ?n) ?k updateStrategy"
    from outcomeSamplingCFR_returns[OF step.prems[unfolded r] False]
    obtain a' q_i q_o s' rng pTail tr2 where
      a': "a' < ?n"
      and rec: "outcomeSamplingCFR D (takeAction g a') p it q_i q_o s' (?t1\<lparr> randomGenerator := rng \<rparr>)
                  = Inr ((u, pTail), tr2)"
      and fin: "t' = (if currentPlayer g = p
                  then addRegrets tr2 ?k ?n
                         (\<lambda>node a. if a = a'
                             then u * p_o * (1 - strategy node ! a') * pTail
                             else - (u * p_o) * pTail * strategy node ! a')
                  else node_upd tr2 ?k (\<lambda>node. strategySum node (strategy node) (p_o / s)))"
      by blast
    have "settles (?t1\<lparr> randomGenerator := rng \<rparr>) tr2" by (rule step.IH[OF a' rec])
    then have 1: "settles t tr2" by (rule settles_refresh) simp
    have 2: "keeps_strategies tr2 t'"
      unfolding fin by (simp add: keeps_addRegrets keeps_strategySum)
    show ?thesis by (rule settles_keeps[OF 1 2])
  qed
qed

lemma settled_strategy:
  assumes "settles t1 t2" and "mNodeMap t1 k = Some (updateStrategy nd)"
  shows "strategy (node_at t2 k) = strategy (node_at t1 k)"
    and "\<exists>nd2. mNodeMap t2 k = Some nd2"
proof -
  from assms obtain nd2 where nd2: "mNodeMap t2 k = Some nd2"
    "mCurrentStrategy nd2 = mCurrentStrategy (updateStrategy nd)
       \<or> mCurrentStrategy nd2 = mCurrentStrategy (updateStrategy (updateStrategy nd))"
    unfolding settles_def by blast
  then show "strategy (node_at t2 k) = strategy (node_at t1 k)"
    using assms(2) by (auto simp: strategy_def node_at_def updateStrategy_idem)
  show "\<exists>nd2. mNodeMap t2 k = Some nd2" using nd2 by blast
qed

lemma refreshed_self:
  "\<exists>nd. mNodeMap (node_upd (fetchNode (touch t) k n) k updateStrategy) k = Some (updateStrategy nd)"
  by (auto simp: node_upd_def)

lemma sampled_regret_depends:
  "mCurrentStrategy x = mCurrentStrategy y \<Longrightarrow>
   (\<lambda>a. if a = c then W * (1 - strategy x ! c) * pT else - W * pT * strategy x ! c)
     = (\<lambda>a. if a = c then W * (1 - strategy y ! c) * pT else - W * pT * strategy y ! c)"
  unfolding strategy_def by (erule ssubst) (rule refl)

text \<open>
  C2. At a terminal state outcome-sampling CFR returns the learner's payoff divided by
  \<open>s\<close>, and the tail 1. Let it return \<open>(util, tail')\<close> at a state that is not terminal,
  let \<open>\<sigma>\<close> be the strategy of the state's table after the refresh on entry and \<open>n\<close> the
  number of actions. The action \<open>a'\<close> is drawn from \<open>q\<close> with
  \<open>q[a] = 0.6 / n + (1 - 0.6) * \<sigma>[a]\<close> at a node of the learner and \<open>q = \<sigma>\<close> otherwise;
  the successor is visited with reach \<open>(p_i * \<sigma>[a'], p_o)\<close> and the learner acting, or
  \<open>(p_i, p_o * \<sigma>[a'])\<close> otherwise, and with \<open>s * q[a']\<close>; it returns \<open>util\<close> and a tail
  \<open>pTail\<close>. At a node of the learner the regret of \<open>a'\<close> grows by
  \<open>util * p_o * (1 - \<sigma>[a']) * pTail\<close> and the regret of every other action by
  \<open>- util * p_o * \<sigma>[a'] * pTail\<close>, and the strategy sums stay; at any other node the
  table becomes \<open>strategySum\<close> of it with \<open>\<sigma>\<close> and weight \<open>p_o / s\<close>. No other table changes
  after the visit of the successor, and the tail returned is \<open>pTail * \<sigma>[a']\<close>.
\<close>

theorem outcomeSamplingCFR_node:
  "(isGameOver game \<longrightarrow>
      outcomeSamplingCFR D game playerIndex iteration p_i p_o s tr
        = Inr ((payoff game playerIndex / s, 1), touch tr))
 \<and> (\<not> isGameOver game \<longrightarrow>
      outcomeSamplingCFR D game playerIndex iteration p_i p_o s tr = Inr ((util, tail'), tr') \<longrightarrow>
      (\<exists>tr1 \<sigma> q a' pTail tr2.
          tr1 = node_upd (fetchNode (touch tr) (infoSetStr game) (actionNum game))
                  (infoSetStr game) updateStrategy
        \<and> \<sigma> = strategy (node_at tr1 (infoSetStr game))
        \<and> q = (if currentPlayer game = playerIndex
               then map (\<lambda>a. (6 / 10) / real (actionNum game) + (1 - 6 / 10) * \<sigma> ! a)
                      [0..<actionNum game]
               else map (\<lambda>a. \<sigma> ! a) [0..<actionNum game])
        \<and> a' = fst (D q (randomGenerator tr1)) \<and> a' < actionNum game
        \<and> outcomeSamplingCFR D (takeAction game a') playerIndex iteration
             (p_i * (if currentPlayer game = playerIndex then \<sigma> ! a' else 1))
             (p_o * (if currentPlayer game = playerIndex then 1 else \<sigma> ! a'))
             (s * q ! a')
             (tr1\<lparr> randomGenerator := snd (D q (randomGenerator tr1)) \<rparr>)
            = Inr ((util, pTail), tr2)
        \<and> tail' = pTail * \<sigma> ! a'
        \<and> (\<forall>j. j \<noteq> infoSetStr game \<longrightarrow> mNodeMap tr' j = mNodeMap tr2 j)
        \<and> (if currentPlayer game = playerIndex
           then (\<forall>a<actionNum game. a < length (mRegretSum (node_at tr2 (infoSetStr game))) \<longrightarrow>
                   regretSum (node_at tr' (infoSetStr game)) a
                     = regretSum (node_at tr2 (infoSetStr game)) a
                       + (if a = a' then util * p_o * (1 - \<sigma> ! a') * pTail
                          else - (util * p_o) * \<sigma> ! a' * pTail))
              \<and> mStrategySum (node_at tr' (infoSetStr game))
                   = mStrategySum (node_at tr2 (infoSetStr game))
           else node_at tr' (infoSetStr game)
                  = strategySum (node_at tr2 (infoSetStr game)) \<sigma> (p_o / s))))"
proof (intro conjI impI)
  assume "isGameOver game"
  then show "outcomeSamplingCFR D game playerIndex iteration p_i p_o s tr
        = Inr ((payoff game playerIndex / s, 1), touch tr)"
    by (rule outcomeSamplingCFR_terminal)
next
  assume over: "\<not> isGameOver game"
    and ret: "outcomeSamplingCFR D game playerIndex iteration p_i p_o s tr = Inr ((util, tail'), tr')"
  let ?k = "infoSetStr game" and ?n = "actionNum game"
  let ?tr1 = "node_upd (fetchNode (touch tr) ?k ?n) ?k updateStrategy"
  let ?\<sigma> = "strategy (node_at ?tr1 ?k)"
  let ?q = "if currentPlayer game = playerIndex
               then map (\<lambda>a. (6 / 10) / real ?n + (1 - 6 / 10) * ?\<sigma> ! a) [0..<?n]
               else map (\<lambda>a. ?\<sigma> ! a) [0..<?n]"
  let ?a = "fst (D ?q (randomGenerator ?tr1))"
  let ?t1r = "?tr1\<lparr> randomGenerator := snd (D ?q (randomGenerator ?tr1)) \<rparr>"
  from outcomeSamplingCFR_returns[OF ret over] obtain pTail tr2 where
    a: "?a < ?n"
    and rec: "outcomeSamplingCFR D (takeAction game ?a) playerIndex iteration
             (p_i * (if currentPlayer game = playerIndex then ?\<sigma> ! ?a else 1))
             (p_o * (if currentPlayer game = playerIndex then 1 else ?\<sigma> ! ?a))
             (s * ?q ! ?a) ?t1r = Inr ((util, pTail), tr2)"
    and fin: "tr' = (if currentPlayer game = playerIndex
                  then addRegrets tr2 ?k ?n
                         (\<lambda>node a. if a = ?a
                             then util * p_o * (1 - strategy node ! ?a) * pTail
                             else - (util * p_o) * pTail * strategy node ! ?a)
                  else node_upd tr2 ?k (\<lambda>node. strategySum node (strategy node) (p_o / s)))"
    and tl: "tail' = pTail * strategy (node_at tr' ?k) ! ?a"
    by blast
  obtain nd where nd: "mNodeMap ?t1r ?k = Some (updateStrategy nd)"
    using refreshed_self[of tr ?k ?n] by auto
  have st: "settles ?t1r tr2" by (rule outcomeSamplingCFR_settles[OF rec])
  have s2: "strategy (node_at tr2 ?k) = ?\<sigma>"
    using settled_strategy(1)[OF st nd] by (simp add: node_at_def)
  obtain nd2 where nd2: "mNodeMap tr2 ?k = Some nd2" using settled_strategy(2)[OF st nd] by blast
  have n2: "node_at tr2 ?k = nd2" using nd2 by (simp add: node_at_def)
  have c2: "mCurrentStrategy nd2 = ?\<sigma>" using s2 n2 by (simp add: strategy_def)
  have keep: "keeps_strategies tr2 tr'"
    unfolding fin by (simp add: keeps_addRegrets keeps_strategySum)
  have s': "strategy (node_at tr' ?k) = ?\<sigma>"
    using keeps_strategy(1)[OF keep nd2] s2 by simp
  have other: "\<forall>j. j \<noteq> ?k \<longrightarrow> mNodeMap tr' j = mNodeMap tr2 j"
    unfolding fin by (simp add: addRegrets_other node_upd_def)
  have upd: "(if currentPlayer game = playerIndex
           then (\<forall>a<?n. a < length (mRegretSum (node_at tr2 ?k)) \<longrightarrow>
                   regretSum (node_at tr' ?k) a
                     = regretSum (node_at tr2 ?k) a
                       + (if a = ?a then util * p_o * (1 - ?\<sigma> ! ?a) * pTail
                          else - (util * p_o) * ?\<sigma> ! ?a * pTail))
              \<and> mStrategySum (node_at tr' ?k) = mStrategySum (node_at tr2 ?k)
           else node_at tr' ?k = strategySum (node_at tr2 ?k) ?\<sigma> (p_o / s))"
  proof (cases "currentPlayer game = playerIndex")
    case False
    then have "node_at tr' ?k = strategySum (node_at tr2 ?k) ?\<sigma> (p_o / s)"
      unfolding fin using s2 by (simp add: node_upd_def node_at_def)
    then show ?thesis using False by simp
  next
    case True
    let ?f = "\<lambda>node a. if a = ?a
                             then util * p_o * (1 - strategy node ! ?a) * pTail
                             else - (util * p_o) * pTail * strategy node ! ?a"
    have dep: "\<And>x y. mCurrentStrategy x = mCurrentStrategy y \<Longrightarrow> ?f x = ?f y"
      by (rule sampled_regret_depends)
    from addRegrets_node[OF nd2, of ?f ?n, OF dep] obtain nodeR where R:
      "mNodeMap (addRegrets tr2 ?k ?n ?f) ?k = Some nodeR"
      "mStrategySum nodeR = mStrategySum nd2"
      "\<forall>a<length (mRegretSum nd2).
          mRegretSum nodeR ! a = (if a < ?n then mRegretSum nd2 ! a + ?f nd2 a else mRegretSum nd2 ! a)"
      by blast
    have nR: "node_at tr' ?k = nodeR" unfolding fin using True R(1) by (simp add: node_at_def)
    have "\<forall>a<?n. a < length (mRegretSum (node_at tr2 ?k)) \<longrightarrow>
                   regretSum (node_at tr' ?k) a
                     = regretSum (node_at tr2 ?k) a
                       + (if a = ?a then util * p_o * (1 - ?\<sigma> ! ?a) * pTail
                          else - (util * p_o) * ?\<sigma> ! ?a * pTail)"
      unfolding nR n2 using R(3) c2 by (simp add: regretSum_def strategy_def)
    moreover have "mStrategySum (node_at tr' ?k) = mStrategySum (node_at tr2 ?k)"
      unfolding nR n2 by (rule R(2))
    ultimately show ?thesis using True by simp
  qed
  have tl': "tail' = pTail * ?\<sigma> ! ?a" using tl unfolding s' .
  show "\<exists>tr1 \<sigma> q a' pTail tr2.
          tr1 = ?tr1 \<and> \<sigma> = strategy (node_at tr1 ?k)
        \<and> q = (if currentPlayer game = playerIndex
               then map (\<lambda>a. (6 / 10) / real ?n + (1 - 6 / 10) * \<sigma> ! a) [0..<?n]
               else map (\<lambda>a. \<sigma> ! a) [0..<?n])
        \<and> a' = fst (D q (randomGenerator tr1)) \<and> a' < ?n
        \<and> outcomeSamplingCFR D (takeAction game a') playerIndex iteration
             (p_i * (if currentPlayer game = playerIndex then \<sigma> ! a' else 1))
             (p_o * (if currentPlayer game = playerIndex then 1 else \<sigma> ! a'))
             (s * q ! a')
             (tr1\<lparr> randomGenerator := snd (D q (randomGenerator tr1)) \<rparr>)
            = Inr ((util, pTail), tr2)
        \<and> tail' = pTail * \<sigma> ! a'
        \<and> (\<forall>j. j \<noteq> ?k \<longrightarrow> mNodeMap tr' j = mNodeMap tr2 j)
        \<and> (if currentPlayer game = playerIndex
           then (\<forall>a<?n. a < length (mRegretSum (node_at tr2 ?k)) \<longrightarrow>
                   regretSum (node_at tr' ?k) a
                     = regretSum (node_at tr2 ?k) a
                       + (if a = a' then util * p_o * (1 - \<sigma> ! a') * pTail
                          else - (util * p_o) * \<sigma> ! a' * pTail))
              \<and> mStrategySum (node_at tr' ?k) = mStrategySum (node_at tr2 ?k)
           else node_at tr' ?k = strategySum (node_at tr2 ?k) \<sigma> (p_o / s))"
    by (intro exI[of _ ?tr1] exI[of _ ?\<sigma>] exI[of _ ?q] exI[of _ ?a] exI[of _ pTail] exI[of _ tr2]
          conjI refl a rec tl' other upd)
qed

lemma example_outcome:
  "\<exists>t'. outcomeSamplingCFR first_action example_game 0 0 1 1 1 example_trainer = Inr ((2, 1 / 2), t')"
  unfolding example_game_def
  by (simp add: outcomeSamplingCFR_unfold outcomeSamplingCFR_terminal example_trainer_def first_action_def
      fetchNode_def node_at_def node_upd_def addRegrets_def regretSum_set_def regretSum_def
      strategy_def newNode_def actionNum_of_def updateStrategy_def replicate_2 upt_2 touch_def Let_def)

theorem outcomeSamplingCFR_node_witness:
  "outcomeSamplingCFR first_action (leaf [1, - 1]) 0 0 1 1 1 example_trainer
     = Inr ((payoff (leaf [1, - 1]) 0 / 1, 1), touch example_trainer)
 \<and> (\<exists>tr'. outcomeSamplingCFR first_action example_game 0 0 1 1 1 example_trainer = Inr ((2, 1 / 2), tr') \<and>
      (\<exists>tr1 \<sigma> q a' pTail tr2.
          tr1 = node_upd (fetchNode (touch example_trainer) (infoSetStr example_game) (actionNum example_game))
                  (infoSetStr example_game) updateStrategy
        \<and> \<sigma> = strategy (node_at tr1 (infoSetStr example_game))
        \<and> q = (if currentPlayer example_game = 0
               then map (\<lambda>a. (6 / 10) / real (actionNum example_game) + (1 - 6 / 10) * \<sigma> ! a)
                      [0..<actionNum example_game]
               else map (\<lambda>a. \<sigma> ! a) [0..<actionNum example_game])
        \<and> a' = fst (first_action q (randomGenerator tr1)) \<and> a' < actionNum example_game
        \<and> outcomeSamplingCFR first_action (takeAction example_game a') 0 0
             (1 * (if currentPlayer example_game = 0 then \<sigma> ! a' else 1))
             (1 * (if currentPlayer example_game = 0 then 1 else \<sigma> ! a'))
             (1 * q ! a')
             (tr1\<lparr> randomGenerator := snd (first_action q (randomGenerator tr1)) \<rparr>)
            = Inr ((2, pTail), tr2)
        \<and> 1 / 2 = pTail * \<sigma> ! a'
        \<and> (\<forall>j. j \<noteq> infoSetStr example_game \<longrightarrow> mNodeMap tr' j = mNodeMap tr2 j)
        \<and> (if currentPlayer example_game = 0
           then (\<forall>a<actionNum example_game.
                   a < length (mRegretSum (node_at tr2 (infoSetStr example_game))) \<longrightarrow>
                   regretSum (node_at tr' (infoSetStr example_game)) a
                     = regretSum (node_at tr2 (infoSetStr example_game)) a
                       + (if a = a' then 2 * 1 * (1 - \<sigma> ! a') * pTail
                          else - (2 * 1) * \<sigma> ! a' * pTail))
              \<and> mStrategySum (node_at tr' (infoSetStr example_game))
                   = mStrategySum (node_at tr2 (infoSetStr example_game))
           else node_at tr' (infoSetStr example_game)
                  = strategySum (node_at tr2 (infoSetStr example_game)) \<sigma> (1 / 1))))"
proof -
  from example_outcome obtain t' where
    ret: "outcomeSamplingCFR first_action example_game 0 0 1 1 1 example_trainer = Inr ((2, 1 / 2), t')"
    by blast
  have over: "\<not> isGameOver example_game" by (simp add: example_game_def)
  have lo: "isGameOver (leaf [1, - 1])" by simp
  note T = outcomeSamplingCFR_node[of "leaf [1, - 1]" first_action 0 0 1 1 1 example_trainer]
  note N = outcomeSamplingCFR_node[of example_game first_action 0 0 1 1 1 example_trainer 2 "1 / 2" t']
  show ?thesis
    by (rule conjI[OF T[THEN conjunct1, THEN mp, OF lo]])
       (rule exI[of _ t'], rule conjI[OF ret N[THEN conjunct2, THEN mp, OF over, THEN mp, OF ret]])
qed

section \<open>Strategy sums over a training run\<close>

text \<open>
  The solvers index a table with the actions of the state they visit, so the tables and
  the game have to agree. \<open>fits vanilla A g\<close> says that every state of \<open>g\<close> at which a
  solver looks up a table has \<open>A key\<close> actions, \<open>key\<close> being its information set; vanilla
  CFR looks up no table at a chance node, the sampling solvers do not ask whether a
  state is one. \<open>good A t\<close> says of every table of the node map that its strategy array
  has at least \<open>A key\<close> cells and as many as its array of strategy sums, and that no cell
  of either is negative. \<open>grows t t'\<close> says that every table of \<open>t\<close> is still there in
  \<open>t'\<close> and that none of its strategy sums is smaller.
\<close>

fun fits :: "bool \<Rightarrow> (string \<Rightarrow> nat) \<Rightarrow> game \<Rightarrow> bool" where
  "fits vanilla A (Game over chance player key prob pays succs) =
     (over \<or> (((vanilla \<and> chance) \<or> length succs = A key) \<and> (\<forall>c\<in>set succs. fits vanilla A c)))"

definition good :: "(string \<Rightarrow> nat) \<Rightarrow> 'r trainer \<Rightarrow> bool" where
  "good A t \<longleftrightarrow>
     (\<forall>k nd. mNodeMap t k = Some nd \<longrightarrow>
        A k \<le> length (mCurrentStrategy nd)
      \<and> length (mStrategySum nd) = length (mCurrentStrategy nd)
      \<and> (\<forall>x\<in>set (mCurrentStrategy nd). 0 \<le> x)
      \<and> (\<forall>x\<in>set (mStrategySum nd). 0 \<le> x))"

definition grows :: "'r trainer \<Rightarrow> 'r trainer \<Rightarrow> bool" where
  "grows t t' \<longleftrightarrow>
     (\<forall>k nd. mNodeMap t k = Some nd \<longrightarrow>
        (\<exists>nd'. mNodeMap t' k = Some nd'
           \<and> length (mStrategySum nd') = length (mStrategySum nd)
           \<and> (\<forall>a<length (mStrategySum nd). mStrategySum nd ! a \<le> mStrategySum nd' ! a)))"

definition sums_inv :: "(string \<Rightarrow> nat) \<Rightarrow> 'r trainer \<Rightarrow> 'r trainer \<Rightarrow> bool" where
  "sums_inv A t t' \<longleftrightarrow> good A t' \<and> grows t t'"

lemma fits_takeAction:
  "fits v A g \<Longrightarrow> \<not> isGameOver g \<Longrightarrow> a < actionNum g \<Longrightarrow> fits v A (takeAction g a)"
  by (cases g) (auto simp: actionNum_def takeAction_def)

lemma fits_arity:
  "fits v A g \<Longrightarrow> \<not> isGameOver g \<Longrightarrow> \<not> (v \<and> isChanceNode g) \<Longrightarrow> actionNum g = A (infoSetStr g)"
  by (cases g) (auto simp: actionNum_def)

lemma grows_refl: "grows t t"
  by (simp add: grows_def)

lemma grows_trans: "grows t t1 \<Longrightarrow> grows t1 t2 \<Longrightarrow> grows t t2"
  unfolding grows_def
proof (intro allI impI)
  fix k nd
  assume 1: "\<forall>k nd. mNodeMap t k = Some nd \<longrightarrow>
        (\<exists>nd'. mNodeMap t1 k = Some nd'
           \<and> length (mStrategySum nd') = length (mStrategySum nd)
           \<and> (\<forall>a<length (mStrategySum nd). mStrategySum nd ! a \<le> mStrategySum nd' ! a))"
    and 2: "\<forall>k nd. mNodeMap t1 k = Some nd \<longrightarrow>
        (\<exists>nd'. mNodeMap t2 k = Some nd'
           \<and> length (mStrategySum nd') = length (mStrategySum nd)
           \<and> (\<forall>a<length (mStrategySum nd). mStrategySum nd ! a \<le> mStrategySum nd' ! a))"
    and nd: "mNodeMap t k = Some nd"
  from 1 nd obtain nd1 where nd1: "mNodeMap t1 k = Some nd1"
    "length (mStrategySum nd1) = length (mStrategySum nd)"
    "\<forall>a<length (mStrategySum nd). mStrategySum nd ! a \<le> mStrategySum nd1 ! a" by blast
  from 2 nd1(1) obtain nd2 where nd2: "mNodeMap t2 k = Some nd2"
    "length (mStrategySum nd2) = length (mStrategySum nd1)"
    "\<forall>a<length (mStrategySum nd1). mStrategySum nd1 ! a \<le> mStrategySum nd2 ! a" by blast
  have "\<forall>a<length (mStrategySum nd). mStrategySum nd ! a \<le> mStrategySum nd2 ! a"
    using nd1(2,3) nd2(3) by (metis order_trans)
  then show "\<exists>nd'. mNodeMap t2 k = Some nd'
           \<and> length (mStrategySum nd') = length (mStrategySum nd)
           \<and> (\<forall>a<length (mStrategySum nd). mStrategySum nd ! a \<le> mStrategySum nd' ! a)"
    using nd2(1,2) nd1(2) by simp
qed

lemma sums_inv_refl: "good A t \<Longrightarrow> sums_inv A t t"
  by (simp add: sums_inv_def grows_refl)

lemma sums_inv_trans: "sums_inv A t t1 \<Longrightarrow> sums_inv A t1 t2 \<Longrightarrow> sums_inv A t t2"
  unfolding sums_inv_def by (blast intro: grows_trans)

lemma sums_inv_good: "sums_inv A t t' \<Longrightarrow> good A t'"
  by (simp add: sums_inv_def)

text \<open>A step that changes one table, or none.\<close>

lemma sums_inv_node_upd:
  assumes g: "good A t" and nd: "mNodeMap t k = Some nd"
    and len: "length (mCurrentStrategy (f nd)) = length (mCurrentStrategy nd)"
             "length (mStrategySum (f nd)) = length (mStrategySum nd)"
    and cur: "\<forall>x\<in>set (mCurrentStrategy (f nd)). 0 \<le> x"
    and sums: "\<forall>a<length (mStrategySum nd). mStrategySum nd ! a \<le> mStrategySum (f nd) ! a"
  shows "sums_inv A t (node_upd t k f)"
proof -
  from g nd have old: "A k \<le> length (mCurrentStrategy nd)"
    "length (mStrategySum nd) = length (mCurrentStrategy nd)"
    "\<forall>x\<in>set (mStrategySum nd). 0 \<le> x"
    unfolding good_def by blast+
  have nonneg: "\<forall>x\<in>set (mStrategySum (f nd)). 0 \<le> x"
  proof
    fix x assume "x \<in> set (mStrategySum (f nd))"
    then obtain a where a: "a < length (mStrategySum (f nd))" "x = mStrategySum (f nd) ! a"
      by (auto simp: in_set_conv_nth)
    then have "a < length (mStrategySum nd)" using len(2) by simp
    then have "0 \<le> mStrategySum nd ! a" "mStrategySum nd ! a \<le> mStrategySum (f nd) ! a"
      using old(3) sums by auto
    then show "0 \<le> x" using a(2) by simp
  qed
  have "good A (node_upd t k f)"
    unfolding good_def
  proof (intro allI impI)
    fix j x assume x: "mNodeMap (node_upd t k f) j = Some x"
    show "A j \<le> length (mCurrentStrategy x)
      \<and> length (mStrategySum x) = length (mCurrentStrategy x)
      \<and> (\<forall>x\<in>set (mCurrentStrategy x). 0 \<le> x)
      \<and> (\<forall>x\<in>set (mStrategySum x). 0 \<le> x)"
    proof (cases "j = k")
      case True
      then have "x = f nd" using x nd by (simp add: node_upd_def node_at_def)
      then show ?thesis using True old len cur nonneg by simp
    next
      case False
      then have "mNodeMap t j = Some x" using x by (simp add: node_upd_def)
      then show ?thesis using g unfolding good_def by blast
    qed
  qed
  moreover have "grows t (node_upd t k f)"
    unfolding grows_def
  proof (intro allI impI)
    fix j x assume x: "mNodeMap t j = Some x"
    show "\<exists>nd'. mNodeMap (node_upd t k f) j = Some nd'
           \<and> length (mStrategySum nd') = length (mStrategySum x)
           \<and> (\<forall>a<length (mStrategySum x). mStrategySum x ! a \<le> mStrategySum nd' ! a)"
    proof (cases "j = k")
      case True
      then have "x = nd" using x nd by simp
      then show ?thesis using True nd len(2) sums by (simp add: node_upd_def node_at_def)
    next
      case False
      then show ?thesis using x by (simp add: node_upd_def)
    qed
  qed
  ultimately show ?thesis by (simp add: sums_inv_def)
qed

lemma sums_inv_same_map:
  "good A t \<Longrightarrow> mNodeMap t' = mNodeMap t \<Longrightarrow> sums_inv A t t'"
  by (simp add: sums_inv_def good_def grows_def)

lemma sums_inv_fetchNode:
  assumes "good A t" and "n = A k"
  shows "sums_inv A t (fetchNode t k n)"
proof (cases "mNodeMap t k")
  case (Some nd)
  then show ?thesis using assms(1) by (simp add: fetchNode_def sums_inv_refl)
next
  case None
  have "good A (t\<lparr> mNodeMap := (mNodeMap t)(k \<mapsto> newNode n) \<rparr>)"
    using assms unfolding good_def by (auto simp: newNode_def)
  moreover have "grows t (t\<lparr> mNodeMap := (mNodeMap t)(k \<mapsto> newNode n) \<rparr>)"
    using None unfolding grows_def by auto
  ultimately show ?thesis using None by (simp add: fetchNode_def sums_inv_def)
qed

subsection \<open>Steps on one table\<close>

lemma regretMatched_nonneg:
  assumes "\<forall>x\<in>set (mCurrentStrategy nd). 0 \<le> x"
  shows "\<forall>x\<in>set (regretMatched nd). 0 \<le> x"
proof
  fix x assume "x \<in> set (regretMatched nd)"
  then have "\<exists>i<length (regretMatched nd). regretMatched nd ! i = x"
    by (simp add: in_set_conv_nth)
  moreover have "length (regretMatched nd) = length (mCurrentStrategy nd)"
    by (simp add: regretMatched_def)
  ultimately obtain i where i: "i < length (mCurrentStrategy nd)" and x: "x = regretMatched nd ! i"
    by auto
  have c: "0 \<le> mCurrentStrategy nd ! i" using assms i by simp
  show "0 \<le> x"
    unfolding x using i c by (simp add: regretMatched_def)
qed

lemma updateStrategy_nonneg:
  assumes "\<forall>x\<in>set (mCurrentStrategy nd). 0 \<le> x"
  shows "\<forall>x\<in>set (mCurrentStrategy (updateStrategy nd)). 0 \<le> x"
  using assms regretMatched_nonneg[OF assms] by (simp add: updateStrategy_any)

lemma strategySum_sums:
  "mStrategySum (strategySum nd strat w) =
     map (\<lambda>i. if i < actionNum_of nd then mStrategySum nd ! i + w * strat ! i else mStrategySum nd ! i)
       [0..<length (mStrategySum nd)]"
  using fold_index_update_any[of "\<lambda>a x. x + w * strat ! a" "actionNum_of nd" "mStrategySum nd"]
  by (simp add: strategySum_def)

lemma strategySum_fields [simp]:
  "mCurrentStrategy (strategySum nd strat w) = mCurrentStrategy nd"
  "length (mStrategySum (strategySum nd strat w)) = length (mStrategySum nd)"
  by (simp_all add: strategySum_sums) (simp add: strategySum_def)

lemma strategySum_grows:
  assumes "0 \<le> w" and "length strat = length (mStrategySum nd)" and "\<forall>x\<in>set strat. 0 \<le> x"
    and "a < length (mStrategySum nd)"
  shows "mStrategySum nd ! a \<le> mStrategySum (strategySum nd strat w) ! a"
proof -
  have "0 \<le> strat ! a" using assms(2,3,4) by simp
  then have "0 \<le> w * strat ! a" using assms(1) by simp
  then show ?thesis using assms(4) by (simp add: strategySum_sums)
qed

lemma sums_inv_refresh:
  assumes "good A t" and "mNodeMap t k = Some nd"
  shows "sums_inv A t (node_upd t k updateStrategy)"
proof (rule sums_inv_node_upd[OF assms])
  show "\<forall>x\<in>set (mCurrentStrategy (updateStrategy nd)). 0 \<le> x"
    using assms unfolding good_def by (blast intro: updateStrategy_nonneg[rule_format])
qed simp_all

lemma sums_inv_strategySum:
  assumes "good A t" and "mNodeMap t k = Some nd" and "0 \<le> w"
  shows "sums_inv A t (node_upd t k (\<lambda>node. strategySum node (strategy node) w))"
proof (rule sums_inv_node_upd[OF assms(1,2)])
  from assms(1,2) have old: "length (mStrategySum nd) = length (mCurrentStrategy nd)"
    "\<forall>x\<in>set (mCurrentStrategy nd). 0 \<le> x"
    unfolding good_def by blast+
  show "\<forall>x\<in>set (mCurrentStrategy (strategySum nd (strategy nd) w)). 0 \<le> x"
    using old by simp
  show "\<forall>a<length (mStrategySum nd).
          mStrategySum nd ! a \<le> mStrategySum (strategySum nd (strategy nd) w) ! a"
    using strategySum_grows[OF assms(3), of "strategy nd" nd] old by (simp add: strategy_def)
qed simp_all

lemma sums_inv_addRegrets:
  assumes "good A t" and "mNodeMap t k = Some nd"
  shows "sums_inv A t (addRegrets t k n f)"
proof -
  let ?P = "\<lambda>s. sums_inv A t s \<and> (\<exists>x. mNodeMap s k = Some x)"
  have "?P (addRegrets t k n f)"
    unfolding addRegrets_def
  proof (rule fold_invariant[where P="?P"])
    show "?P t" using assms by (simp add: sums_inv_refl)
  next
    fix a s assume P: "?P s"
    then obtain x where x: "mNodeMap s k = Some x" by blast
    from P have gs: "good A s" unfolding sums_inv_def by blast
    let ?s' = "node_upd s k (\<lambda>node. regretSum_set node a (regretSum node a + f node a))"
    have "sums_inv A s ?s'"
      by (rule sums_inv_node_upd[OF gs x]) (use gs x in \<open>auto simp: regretSum_set_def good_def\<close>)
    with P have "sums_inv A t ?s'" by (blast intro: sums_inv_trans)
    moreover have "\<exists>x. mNodeMap ?s' k = Some x" by (simp add: node_upd_def)
    ultimately show "?P ?s'" by blast
  qed
  then show ?thesis by blast
qed

lemma good_strategy_nonneg:
  assumes "good A t" and "mNodeMap t k = Some nd" and "a < A k"
  shows "0 \<le> strategy (node_at t k) ! a"
proof -
  from assms(1,2) have "A k \<le> length (mCurrentStrategy nd)" "\<forall>x\<in>set (mCurrentStrategy nd). 0 \<le> x"
    unfolding good_def by blast+
  then show ?thesis using assms(2,3) by (simp add: strategy_def node_at_def)
qed

lemma grows_has: "grows t t' \<Longrightarrow> mNodeMap t k = Some nd \<Longrightarrow> \<exists>nd'. mNodeMap t' k = Some nd'"
  unfolding grows_def by blast

subsection \<open>The four solvers\<close>

text \<open>The loop over the actions of a learning actor and the update after it, for vanilla
  and chance-sampling CFR, whose recursive call is \<open>call\<close>.\<close>

lemma learner_node_sums:
  assumes loop: "for_loop n
             (\<lambda>a (utils, nodeUtil, t).
                case (if learner then call a (p_i * strategy (node_at t k) ! a) p_o t
                      else call a p_i (p_o * strategy (node_at t k) ! a) t) of
                  Inl e \<Rightarrow> Inl e
                | Inr (u, t') \<Rightarrow> Inr (utils @ [u], nodeUtil + strategy (node_at t' k) ! a * u, t'))
             ([], 0, fetchNode (touch t) k n) = Inr (utils, v, tr2)"
    and fin: "t' = (if learner
                    then node_upd (addRegrets tr2 k n f) k (\<lambda>node. strategySum node (strategy node) p_i)
                    else tr2)"
    and good: "good A t" and n: "n = A k" and pi: "0 \<le> p_i"
    and IH: "\<And>a q_i q_o s u s'. a < n \<Longrightarrow> good A s \<Longrightarrow> 0 \<le> q_i
               \<Longrightarrow> call a q_i q_o s = Inr (u, s') \<Longrightarrow> sums_inv A s s'"
  shows "sums_inv A t t'"
proof -
  let ?t1 = "fetchNode (touch t) k n"
  let ?P = "\<lambda>(x :: real list, y :: real, s). sums_inv A t s \<and> (\<exists>nd. mNodeMap s k = Some nd)"
  have g0: "good A (touch t)" using good by (simp add: good_def)
  have "sums_inv A t (touch t)" using good by (rule sums_inv_same_map) simp
  then have t1: "sums_inv A t ?t1"
    using sums_inv_fetchNode[OF g0 n] by (rule sums_inv_trans)
  have "?P (utils, v, tr2)"
  proof (rule for_loop_invariant[OF loop])
    show "?P ([], 0, ?t1)" using t1 fetchNode_has[of "touch t" k n] by simp
  next
    fix a s s' assume a: "a < n" and P: "?P s"
      and b: "(\<lambda>a (utils, nodeUtil, t).
                case (if learner then call a (p_i * strategy (node_at t k) ! a) p_o t
                      else call a p_i (p_o * strategy (node_at t k) ! a) t) of
                  Inl e \<Rightarrow> Inl e
                | Inr (u, t') \<Rightarrow> Inr (utils @ [u], nodeUtil + strategy (node_at t' k) ! a * u, t')) a s
              = Inr s'"
    obtain x1 y1 s1 where s: "s = (x1, y1, s1)" by (cases s)
    obtain x2 y2 s2 where s': "s' = (x2, y2, s2)" by (cases s')
    from P s have inv1: "sums_inv A t s1" and ex1: "\<exists>nd. mNodeMap s1 k = Some nd" by simp_all
    then obtain nd1 where nd1: "mNodeMap s1 k = Some nd1" by blast
    have g1: "good A s1" using inv1 by (rule sums_inv_good)
    have q: "0 \<le> p_i * strategy (node_at s1 k) ! a"
      using good_strategy_nonneg[OF g1 nd1, of a] a n pi by simp
    from b s s' obtain w where
      c: "(if learner then call a (p_i * strategy (node_at s1 k) ! a) p_o s1
           else call a p_i (p_o * strategy (node_at s1 k) ! a) s1) = Inr (w, s2)"
      by (auto split: sum.splits)
    have step: "sums_inv A s1 s2"
    proof (cases learner)
      case True
      then show ?thesis using c IH[OF a g1 q] by simp
    next
      case False
      then show ?thesis using c IH[OF a g1 pi] by simp
    qed
    have "sums_inv A t s2" using inv1 step by (rule sums_inv_trans)
    moreover have "\<exists>nd. mNodeMap s2 k = Some nd"
      using step nd1 unfolding sums_inv_def by (blast dest: grows_has)
    ultimately show "?P s'" using s' by simp
  qed
  then have inv2: "sums_inv A t tr2" and ex2: "\<exists>nd. mNodeMap tr2 k = Some nd" by simp_all
  show ?thesis
  proof (cases learner)
    case False
    then show ?thesis using fin inv2 by simp
  next
    case True
    obtain nd2 where nd2: "mNodeMap tr2 k = Some nd2" using ex2 by blast
    have g2: "good A tr2" using inv2 by (rule sums_inv_good)
    let ?t3 = "addRegrets tr2 k n f"
    have i3: "sums_inv A tr2 ?t3" by (rule sums_inv_addRegrets[OF g2 nd2])
    then obtain nd3 where nd3: "mNodeMap ?t3 k = Some nd3"
      using nd2 unfolding sums_inv_def by (blast dest: grows_has)
    have g3: "good A ?t3" using i3 by (rule sums_inv_good)
    have "sums_inv A ?t3 t'"
      unfolding fin using True sums_inv_strategySum[OF g3 nd3 pi] by simp
    with inv2 i3 show ?thesis by (blast intro: sums_inv_trans)
  qed
qed

lemma CFR_sums:
  "CFR g p p_i p_o t = Inr (u, t') \<Longrightarrow> fits True A g \<Longrightarrow> good A t \<Longrightarrow> 0 \<le> p_i
     \<Longrightarrow> sums_inv A t t'"
proof (induction g arbitrary: p_i p_o t u t' rule: game_induct)
  case (step g)
  note ret = step.prems(1) and fit = step.prems(2) and good = step.prems(3) and pi = step.prems(4)
  let ?tr = "touch t"
  have tr: "sums_inv A t ?tr" using good by (rule sums_inv_same_map) simp
  show ?case
  proof (cases "isGameOver g")
    case True
    then show ?thesis using ret tr by (simp add: CFR.simps[of g])
  next
    case over: False
    have sub: "\<And>a. a < actionNum g \<Longrightarrow> fits True A (takeAction g a)"
      using fits_takeAction[OF fit over] .
    show ?thesis
    proof (cases "isChanceNode g")
      case True
      let ?body = "\<lambda>a (nodeUtil, t).
            let game_cp = takeAction g a;
                chanceProb = chanceProbability game_cp
            in case CFR game_cp p p_i (p_o * chanceProb) t of
                 Inl e \<Rightarrow> Inl e
               | Inr (u, t') \<Rightarrow> Inr (nodeUtil + chanceProb * u, t')"
      from ret over True have loop: "for_loop (actionNum g) ?body (0, ?tr) = Inr (u, t')"
        by (simp add: CFR.simps[of g])
      have "(\<lambda>(x, s). sums_inv A t s) (u, t')"
      proof (rule for_loop_invariant[OF loop])
        show "(\<lambda>(x, s). sums_inv A t s) (0, ?tr)" using tr by simp
      next
        fix a s s' assume a: "a < actionNum g" and P: "(\<lambda>(x, s). sums_inv A t s) s"
          and b: "?body a s = Inr s'"
        obtain x1 t1 where s: "s = (x1, t1)" by (cases s)
        obtain x2 t2 where s': "s' = (x2, t2)" by (cases s')
        have i1: "sums_inv A t t1" using P s by simp
        from b s s' obtain v where
          "CFR (takeAction g a) p p_i (p_o * chanceProbability (takeAction g a)) t1 = Inr (v, t2)"
          by (auto simp: Let_def split: sum.splits)
        from step.IH[OF a this sub[OF a] sums_inv_good[OF i1] pi] i1
        have "sums_inv A t t2" by (blast intro: sums_inv_trans)
        then show "(\<lambda>(x, s). sums_inv A t s) s'" using s' by simp
      qed
      then show ?thesis by simp
    next
      case chance: False
      let ?k = "infoSetStr g"
      let ?pl = "currentPlayer g"
      have n: "actionNum g = A ?k" using fits_arity[OF fit over] chance by simp
      show ?thesis
      proof (cases "mUpdate t ! ?pl")
        case False
        let ?body = "\<lambda>a (nodeUtil, t).
              let game_cp = takeAction g a
              in case fixedAverage t ?pl ?k of
                   Inl e \<Rightarrow> Inl e
                 | Inr (av, t1) \<Rightarrow>
                     (let chanceProb = av ! a
                      in case CFR game_cp p p_i (p_o * chanceProb) t1 of
                           Inl e \<Rightarrow> Inl e
                         | Inr (u, t') \<Rightarrow> Inr (nodeUtil + chanceProb * u, t'))"
        from ret over chance False have loop: "for_loop (actionNum g) ?body (0, ?tr) = Inr (u, t')"
          by (simp add: CFR.simps[of g] Let_def)
        have "(\<lambda>(x, s). sums_inv A t s) (u, t')"
        proof (rule for_loop_invariant[OF loop])
          show "(\<lambda>(x, s). sums_inv A t s) (0, ?tr)" using tr by simp
        next
          fix a s s' assume a: "a < actionNum g" and P: "(\<lambda>(x, s). sums_inv A t s) s"
            and b: "?body a s = Inr s'"
          obtain x1 t1 where s: "s = (x1, t1)" by (cases s)
          obtain x2 t2 where s': "s' = (x2, t2)" by (cases s')
          have i1: "sums_inv A t t1" using P s by simp
          from b s s' obtain av tf v where f: "fixedAverage t1 ?pl ?k = Inr (av, tf)"
            and c: "CFR (takeAction g a) p p_i (p_o * av ! a) tf = Inr (v, t2)"
            by (auto simp: Let_def split: sum.splits)
          have i2: "sums_inv A t1 tf"
            using sums_inv_good[OF i1] fixedAverage_map[OF f] by (rule sums_inv_same_map)
          from step.IH[OF a c sub[OF a] sums_inv_good[OF i2] pi] i1 i2
          have "sums_inv A t t2" by (blast intro: sums_inv_trans)
          then show "(\<lambda>(x, s). sums_inv A t s) s'" using s' by simp
        qed
        then show ?thesis by simp
      next
        case True
        let ?body = "\<lambda>a (utils, nodeUtil, t).
                   case (if ?pl = p
                            then CFR (takeAction g a) p (p_i * strategy (node_at t ?k) ! a) p_o t
                            else CFR (takeAction g a) p p_i (p_o * strategy (node_at t ?k) ! a) t) of
                        Inl e \<Rightarrow> Inl e
                      | Inr (u, t') \<Rightarrow>
                          Inr (utils @ [u], nodeUtil + strategy (node_at t' ?k) ! a * u, t')"
        from ret over chance True obtain utils tr2 where
          loop: "for_loop (actionNum g) ?body ([], 0, fetchNode ?tr ?k (actionNum g)) = Inr (utils, u, tr2)"
          and fin: "t' = (if ?pl = p then node_upd (addRegrets tr2 ?k (actionNum g) (\<lambda>node a. p_o * (utils ! a - u))) ?k
                              (\<lambda>node. strategySum node (strategy node) p_i) else tr2)"
          by (auto simp: CFR.simps[of g] Let_def split: sum.splits if_splits)
        show ?thesis
          by (rule learner_node_sums[where call="\<lambda>a. CFR (takeAction g a) p", OF loop fin good n pi])
             (rule step.IH[OF _ _ sub], simp_all)
      qed
    qed
  qed
qed

lemma sums_inv_enter:
  assumes "good A t" and "n = A k"
  shows "sums_inv A t (node_upd (fetchNode (touch t) k n) k updateStrategy)"
proof -
  have g0: "good A (touch t)" using assms(1) by (simp add: good_def)
  have 1: "sums_inv A t (touch t)" using assms(1) by (rule sums_inv_same_map) simp
  have 2: "sums_inv A (touch t) (fetchNode (touch t) k n)" by (rule sums_inv_fetchNode[OF g0 assms(2)])
  obtain nd where nd: "mNodeMap (fetchNode (touch t) k n) k = Some nd" using fetchNode_has by blast
  have 3: "sums_inv A (fetchNode (touch t) k n) (node_upd (fetchNode (touch t) k n) k updateStrategy)"
    by (rule sums_inv_refresh[OF sums_inv_good[OF 2] nd])
  show ?thesis using 1 2 3 by (blast intro: sums_inv_trans)
qed

lemma node_upd_has: "\<exists>nd. mNodeMap (node_upd t k f) k = Some nd"
  by (simp add: node_upd_def)

lemma sums_inv_rng:
  "sums_inv A t t1 \<Longrightarrow> sums_inv A t (t1\<lparr> randomGenerator := rng \<rparr>)"
  by (simp add: sums_inv_def good_def grows_def)

lemma reach_nonneg:
  "0 \<le> (p::real) \<Longrightarrow> 0 \<le> x \<Longrightarrow> 0 \<le> p * (if c then 1 else x)"
  by simp

lemma sampling_prob_nonneg:
  assumes "a < n" and "0 \<le> \<sigma> ! a"
  shows "0 \<le> (if c then map (\<lambda>a. (6 / 10) / real n + (1 - 6 / 10) * \<sigma> ! a) [0..<n]
              else map (\<lambda>a. \<sigma> ! a) [0..<n]) ! a"
  using assms by simp

lemma outcomeSamplingCFR_sums:
  "outcomeSamplingCFR D g p it p_i p_o s t = Inr (r, t') \<Longrightarrow> fits False A g \<Longrightarrow> good A t
     \<Longrightarrow> 0 \<le> p_o \<Longrightarrow> 0 \<le> s \<Longrightarrow> sums_inv A t t'"
proof (induction g arbitrary: p_i p_o s t r t' rule: game_induct)
  case (step g)
  note ret = step.prems(1) and fit = step.prems(2) and good = step.prems(3)
    and po = step.prems(4) and s = step.prems(5)
  show ?case
  proof (cases "isGameOver g")
    case True
    then have "t' = touch t" using ret by (simp add: outcomeSamplingCFR_terminal)
    then show ?thesis using good by (simp add: sums_inv_same_map)
  next
    case over: False
    obtain u tl where r: "r = (u, tl)" by (cases r)
    let ?k = "infoSetStr g" and ?n = "actionNum g"
    let ?t1 = "node_upd (fetchNode (touch t) ?k ?n) ?k updateStrategy"
    let ?\<sigma> = "strategy (node_at ?t1 ?k)"
    let ?q = "if currentPlayer g = p
               then map (\<lambda>a. (6 / 10) / real ?n + (1 - 6 / 10) * ?\<sigma> ! a) [0..<?n]
               else map (\<lambda>a. ?\<sigma> ! a) [0..<?n]"
    let ?a = "fst (D ?q (randomGenerator ?t1))"
    let ?t1r = "?t1\<lparr> randomGenerator := snd (D ?q (randomGenerator ?t1)) \<rparr>"
    have n: "?n = A ?k" using fits_arity[OF fit over] by simp
    from outcomeSamplingCFR_returns[OF ret[unfolded r] over] obtain pTail tr2 where
      a: "?a < ?n"
      and rec: "outcomeSamplingCFR D (takeAction g ?a) p it
             (p_i * (if currentPlayer g = p then ?\<sigma> ! ?a else 1))
             (p_o * (if currentPlayer g = p then 1 else ?\<sigma> ! ?a))
             (s * ?q ! ?a) ?t1r = Inr ((u, pTail), tr2)"
      and fin: "t' = (if currentPlayer g = p
                  then addRegrets tr2 ?k ?n
                         (\<lambda>node a. if a = ?a
                             then u * p_o * (1 - strategy node ! ?a) * pTail
                             else - (u * p_o) * pTail * strategy node ! ?a)
                  else node_upd tr2 ?k (\<lambda>node. strategySum node (strategy node) (p_o / s)))"
      by blast
    have i1: "sums_inv A t ?t1r" by (rule sums_inv_rng[OF sums_inv_enter[OF good n]])
    have g1: "good A ?t1" using sums_inv_enter[OF good n] by (rule sums_inv_good)
    obtain nd1 where nd1: "mNodeMap ?t1 ?k = Some nd1" using node_upd_has by blast
    have sg: "0 \<le> ?\<sigma> ! ?a" using good_strategy_nonneg[OF g1 nd1, of ?a] a n by simp
    have po': "0 \<le> p_o * (if currentPlayer g = p then 1 else ?\<sigma> ! ?a)"
      by (rule reach_nonneg[OF po sg])
    have "0 \<le> ?q ! ?a" by (rule sampling_prob_nonneg[OF a sg])
    then have s': "0 \<le> s * ?q ! ?a" by (rule mult_nonneg_nonneg[OF s])
    have i2: "sums_inv A ?t1r tr2"
      by (rule step.IH[OF a rec fits_takeAction[OF fit over a] sums_inv_good[OF i1] po' s'])
    have ex1: "mNodeMap ?t1r ?k = Some nd1" using nd1 by simp
    obtain nd2 where nd2: "mNodeMap tr2 ?k = Some nd2"
      using i2 ex1 unfolding sums_inv_def by (blast dest: grows_has)
    have g2: "good A tr2" using i2 by (rule sums_inv_good)
    have w: "0 \<le> p_o / s" using po s by simp
    have i3: "sums_inv A tr2 t'"
    proof (cases "currentPlayer g = p")
      case True
      show ?thesis unfolding fin if_P[OF True] by (rule sums_inv_addRegrets[OF g2 nd2])
    next
      case False
      show ?thesis unfolding fin if_not_P[OF False] by (rule sums_inv_strategySum[OF g2 nd2 w])
    qed
    show ?thesis using i1 i2 i3 by (blast intro: sums_inv_trans)
  qed
qed

lemma externalSamplingCFR_sums:
  "externalSamplingCFR D g p t = Inr (u, t') \<Longrightarrow> fits False A g \<Longrightarrow> good A t
     \<Longrightarrow> sums_inv A t t'"
proof (induction g arbitrary: t u t' rule: game_induct)
  case (step g)
  note ret = step.prems(1) and fit = step.prems(2) and good = step.prems(3)
  show ?case
  proof (cases "isGameOver g")
    case True
    then have "t' = touch t" using ret by (simp add: externalSamplingCFR_terminal)
    then show ?thesis using good by (simp add: sums_inv_same_map)
  next
    case over: False
    let ?k = "infoSetStr g" and ?n = "actionNum g" and ?pl = "currentPlayer g"
    let ?t1 = "node_upd (fetchNode (touch t) ?k ?n) ?k updateStrategy"
    have n: "?n = A ?k" using fits_arity[OF fit over] by simp
    have learn: "mUpdate t ! ?pl"
      using ret sampling_needs_learner(1)[OF over, of t D p] by auto
    have i1: "sums_inv A t ?t1" by (rule sums_inv_enter[OF good n])
    obtain nd1 where nd1: "mNodeMap ?t1 ?k = Some nd1" using node_upd_has by blast
    have sub: "\<And>a. a < ?n \<Longrightarrow> fits False A (takeAction g a)"
      using fits_takeAction[OF fit over] .
    show ?thesis
    proof (cases "?pl = p")
      case False
      from ret over learn False obtain a' rng t2 where a: "a' < ?n"
        and rec: "externalSamplingCFR D (takeAction g a') p (?t1\<lparr> randomGenerator := rng \<rparr>) = Inr (u, t2)"
        and fin: "t' = node_upd t2 ?k (\<lambda>node. strategySum node (strategy node) 1)"
        by (auto simp: externalSamplingCFR.simps[of D g] Let_def split: sum.splits prod.splits if_splits)
      have i1r: "sums_inv A t (?t1\<lparr> randomGenerator := rng \<rparr>)" by (rule sums_inv_rng[OF i1])
      have i2: "sums_inv A (?t1\<lparr> randomGenerator := rng \<rparr>) t2"
        by (rule step.IH[OF a rec sub[OF a] sums_inv_good[OF i1r]])
      have "mNodeMap (?t1\<lparr> randomGenerator := rng \<rparr>) ?k = Some nd1" using nd1 by simp
      then obtain nd2 where nd2: "mNodeMap t2 ?k = Some nd2"
        using i2 unfolding sums_inv_def by (blast dest: grows_has)
      have i3: "sums_inv A t2 t'"
        unfolding fin by (rule sums_inv_strategySum[OF sums_inv_good[OF i2] nd2]) simp
      show ?thesis using i1r i2 i3 by (blast intro: sums_inv_trans)
    next
      case True
      let ?body = "\<lambda>a (utils, nodeUtil, t).
                     case externalSamplingCFR D (takeAction g a) p t of
                       Inl e \<Rightarrow> Inl e
                     | Inr (u, t') \<Rightarrow>
                         Inr (utils @ [u], nodeUtil + strategy (node_at t' ?k) ! a * u, t')"
      from ret over learn True obtain utils tr2 where
        loop: "for_loop ?n ?body ([], 0, ?t1) = Inr (utils, u, tr2)"
        and fin: "t' = addRegrets tr2 ?k ?n (\<lambda>node a. utils ! a - u)"
        by (auto simp: externalSamplingCFR.simps[of D g] Let_def split: sum.splits)
      let ?P = "\<lambda>(x :: real list, y :: real, s). sums_inv A t s \<and> (\<exists>nd. mNodeMap s ?k = Some nd)"
      have "?P (utils, u, tr2)"
      proof (rule for_loop_invariant[OF loop])
        show "?P ([], 0, ?t1)" using i1 nd1 by simp
      next
        fix a s s' assume a: "a < ?n" and P: "?P s" and b: "?body a s = Inr s'"
        obtain x1 y1 s1 where s: "s = (x1, y1, s1)" by (cases s)
        obtain x2 y2 s2 where s': "s' = (x2, y2, s2)" by (cases s')
        from P s have inv1: "sums_inv A t s1" and ex1: "\<exists>nd. mNodeMap s1 ?k = Some nd" by simp_all
        from b s s' obtain w where c: "externalSamplingCFR D (takeAction g a) p s1 = Inr (w, s2)"
          by (auto split: sum.splits)
        have stp: "sums_inv A s1 s2" by (rule step.IH[OF a c sub[OF a] sums_inv_good[OF inv1]])
        have "sums_inv A t s2" using inv1 stp by (rule sums_inv_trans)
        moreover have "\<exists>nd. mNodeMap s2 ?k = Some nd"
          using stp ex1 unfolding sums_inv_def by (blast dest: grows_has)
        ultimately show "?P s'" using s' by simp
      qed
      then have inv2: "sums_inv A t tr2" and ex2: "\<exists>nd. mNodeMap tr2 ?k = Some nd" by simp_all
      obtain nd2 where nd2: "mNodeMap tr2 ?k = Some nd2" using ex2 by blast
      have "sums_inv A tr2 t'" unfolding fin by (rule sums_inv_addRegrets[OF sums_inv_good[OF inv2] nd2])
      with inv2 show ?thesis by (rule sums_inv_trans)
    qed
  qed
qed

lemma chanceSamplingCFR_terminal:
  "isGameOver g \<Longrightarrow> chanceSamplingCFR D g p p_i p_o t = Inr (payoff g p, touch t)"
  by (subst chanceSamplingCFR.simps) simp

lemma chanceSamplingCFR_sums:
  "chanceSamplingCFR D g p p_i p_o t = Inr (u, t') \<Longrightarrow> fits False A g \<Longrightarrow> good A t \<Longrightarrow> 0 \<le> p_i
     \<Longrightarrow> sums_inv A t t'"
proof (induction g arbitrary: p_i p_o t u t' rule: game_induct)
  case (step g)
  note ret = step.prems(1) and fit = step.prems(2) and good = step.prems(3) and pi = step.prems(4)
  show ?case
  proof (cases "isGameOver g")
    case True
    then have "t' = touch t" using ret by (simp add: chanceSamplingCFR_terminal)
    then show ?thesis using good by (simp add: sums_inv_same_map)
  next
    case over: False
    let ?k = "infoSetStr g" and ?n = "actionNum g" and ?pl = "currentPlayer g"
    have n: "?n = A ?k" using fits_arity[OF fit over] by simp
    have sub: "\<And>a. a < ?n \<Longrightarrow> fits False A (takeAction g a)"
      using fits_takeAction[OF fit over] .
    show ?thesis
    proof (cases "mUpdate t ! ?pl")
      case False
      from ret over False obtain av t1 a' rng where f: "fixedAverage (touch t) ?pl ?k = Inr (av, t1)"
        and a: "a' < ?n"
        and rec: "chanceSamplingCFR D (takeAction g a') p p_i p_o (t1\<lparr> randomGenerator := rng \<rparr>) = Inr (u, t')"
        by (auto simp: chanceSamplingCFR.simps[of D g] Let_def split: sum.splits prod.splits if_splits)
      have m: "mNodeMap (t1\<lparr> randomGenerator := rng \<rparr>) = mNodeMap t"
        using fixedAverage_map[OF f] by simp
      have i1: "sums_inv A t (t1\<lparr> randomGenerator := rng \<rparr>)" by (rule sums_inv_same_map[OF good m])
      have i2: "sums_inv A (t1\<lparr> randomGenerator := rng \<rparr>) t'"
        by (rule step.IH[OF a rec sub[OF a] sums_inv_good[OF i1] pi])
      show ?thesis using i1 i2 by (rule sums_inv_trans)
    next
      case True
      let ?body = "\<lambda>a (utils, nodeUtil, t).
                   case (if ?pl = p
                            then chanceSamplingCFR D (takeAction g a) p (p_i * strategy (node_at t ?k) ! a) p_o t
                            else chanceSamplingCFR D (takeAction g a) p p_i (p_o * strategy (node_at t ?k) ! a) t) of
                        Inl e \<Rightarrow> Inl e
                      | Inr (u, t') \<Rightarrow>
                          Inr (utils @ [u], nodeUtil + strategy (node_at t' ?k) ! a * u, t')"
      from ret over True obtain utils tr2 where
        loop: "for_loop ?n ?body ([], 0, fetchNode (touch t) ?k ?n) = Inr (utils, u, tr2)"
        and fin: "t' = (if ?pl = p then node_upd (addRegrets tr2 ?k ?n (\<lambda>node a. p_o * (utils ! a - u))) ?k
                            (\<lambda>node. strategySum node (strategy node) p_i) else tr2)"
        by (auto simp: chanceSamplingCFR.simps[of D g] Let_def split: sum.splits if_splits)
      show ?thesis
        by (rule learner_node_sums[where call="\<lambda>a. chanceSamplingCFR D (takeAction g a) p",
              OF loop fin good n pi])
           (rule step.IH[OF _ _ sub], simp_all)
    qed
  qed
qed

subsection \<open>The training loop\<close>

lemma sums_inv_updateAll:
  assumes "good A t"
  shows "sums_inv A t (updateAll t)"
proof -
  have "good A (updateAll t)"
    unfolding good_def
  proof (intro allI impI)
    fix k x assume "mNodeMap (updateAll t) k = Some x"
    then obtain nd where nd: "mNodeMap t k = Some nd" and x: "x = updateStrategy nd"
      by (auto simp: updateAll_def)
    from assms nd have old: "A k \<le> length (mCurrentStrategy nd)"
      "length (mStrategySum nd) = length (mCurrentStrategy nd)"
      "\<forall>x\<in>set (mCurrentStrategy nd). 0 \<le> x" "\<forall>x\<in>set (mStrategySum nd). 0 \<le> x"
      unfolding good_def by blast+
    show "A k \<le> length (mCurrentStrategy x)
      \<and> length (mStrategySum x) = length (mCurrentStrategy x)
      \<and> (\<forall>x\<in>set (mCurrentStrategy x). 0 \<le> x)
      \<and> (\<forall>x\<in>set (mStrategySum x). 0 \<le> x)"
      unfolding x using old updateStrategy_nonneg[OF old(3)] by simp
  qed
  moreover have "grows t (updateAll t)"
    by (auto simp: grows_def updateAll_def)
  ultimately show ?thesis by (simp add: sums_inv_def)
qed

lemma printNode_fields [simp]:
  "mCurrentStrategy (printNode n) = mCurrentStrategy n"
  "mStrategySum (printNode n) = mStrategySum n"
  by (simp_all add: printNode_eq averageStrategy_def calcAverageStrategy_def Let_def)

lemma sums_inv_write:
  assumes "good A t"
  shows "sums_inv A t (snd (writeStrategyToBin i t))"
proof -
  have "good A (snd (writeStrategyToBin i t))"
    using assms unfolding good_def
    by (auto simp: writeStrategyToBin_def Let_def)
  moreover have "grows t (snd (writeStrategyToBin i t))"
    by (auto simp: grows_def writeStrategyToBin_def Let_def)
  ultimately show ?thesis by (simp add: sums_inv_def)
qed

lemma resetGame_game: "mGame (resetGame R b t) = fst (R b (mGame t) (randomGenerator t))"
  by (simp add: resetGame_def split_beta)

lemma train_player_sums:
  assumes Rfits: "\<forall>b g r. fits (\<not> b) A (fst (R b g r))"
    and good: "good A t"
    and ret: "train_player D R i p (utils, t) = Inr (utils', t')"
  shows "sums_inv A t t'"
proof (cases "mUpdate t ! p")
  case False
  then show ?thesis using ret good by (simp add: train_player_def sums_inv_refl)
next
  case True
  have r: "sums_inv A t (resetGame R b t)" for b
    using good by (rule sums_inv_same_map) simp
  have gr: "good A (resetGame R b t)" for b using r by (rule sums_inv_good)
  have fv: "fits True A (mGame (resetGame R False t))"
    using Rfits[rule_format, of False] by (simp add: resetGame_game)
  have fs: "fits False A (mGame (resetGame R True t))"
    using Rfits[rule_format, of True] by (simp add: resetGame_game)
  show ?thesis
  proof (cases "mModeStr t = ''standard''")
    case std: True
    from ret True std obtain u t2 where
      c: "CFR (mGame (resetGame R False t)) p 1 1 (resetGame R False t) = Inr (u, t2)"
      and fin: "t' = updateAll t2"
      by (auto simp: train_player_def Let_def split: sum.splits)
    have i2: "sums_inv A (resetGame R False t) t2" by (rule CFR_sums[OF c fv gr]) simp
    have i3: "sums_inv A t2 t'" unfolding fin by (rule sums_inv_updateAll[OF sums_inv_good[OF i2]])
    show ?thesis using r i2 i3 by (blast intro: sums_inv_trans)
  next
    case nstd: False
    show ?thesis
    proof (cases "mModeStr t = ''chance''")
      case ch: True
      from ret True ch obtain u t2 where
        c: "chanceSamplingCFR D (mGame (resetGame R True t)) p 1 1 (resetGame R True t) = Inr (u, t2)"
        and fin: "t' = updateAll t2"
        by (auto simp: train_player_def resetGame_default_def Let_def split: sum.splits)
      have i2: "sums_inv A (resetGame R True t) t2" by (rule chanceSamplingCFR_sums[OF c fs gr]) simp
      have i3: "sums_inv A t2 t'" unfolding fin by (rule sums_inv_updateAll[OF sums_inv_good[OF i2]])
      show ?thesis using r i2 i3 by (blast intro: sums_inv_trans)
    next
      case nch: False
      show ?thesis
      proof (cases "mModeStr t = ''external''")
        case ex: True
        from ret True ex obtain u where
          c: "externalSamplingCFR D (mGame (resetGame R True t)) p (resetGame R True t) = Inr (u, t')"
          by (auto simp: train_player_def resetGame_default_def Let_def split: sum.splits)
        have i2: "sums_inv A (resetGame R True t) t'" by (rule externalSamplingCFR_sums[OF c fs gr])
        show ?thesis using r i2 by (blast intro: sums_inv_trans)
      next
        case nex: False
        from ret True nstd nch nex obtain u where
          c: "outcomeSamplingCFR D (mGame (resetGame R True t)) p i 1 1 1 (resetGame R True t) = Inr (u, t')"
          by (auto simp: train_player_def resetGame_default_def Let_def split: sum.splits if_splits)
        have i2: "sums_inv A (resetGame R True t) t'"
          by (rule outcomeSamplingCFR_sums[OF c fs gr]) simp_all
        show ?thesis using r i2 by (blast intro: sums_inv_trans)
      qed
    qed
  qed
qed

lemma train_sums:
  assumes Rfits: "\<forall>b g r. fits (\<not> b) A (fst (R b g r))"
    and good: "good A tr"
    and ret: "train D R playerNum utils0 iterations tr = Inr (files, tr')"
  shows "sums_inv A tr tr'"
proof -
  let ?inner = "\<lambda>i. for_loop playerNum (\<lambda>p. train_player D R (int i) p)"
  let ?outer = "\<lambda>i (utils, files, t).
                case ?inner i (utils, t) of
                  Inl e \<Rightarrow> Inl e
                | Inr (utils', t') \<Rightarrow>
                    if i \<noteq> 0 \<and> i mod 10000000 = 0
                    then (let (file, t'') = writeStrategyToBin (int i) t'
                          in Inr (utils', files @ [file], t''))
                    else Inr (utils', files, t')"
  from ret obtain ul fl t where loop: "for_loop iterations ?outer (utils0, [], tr) = Inr (ul, fl, t)"
    and fin: "tr' = snd (writeStrategyToBin (- 1) t)"
    by (auto simp: train_def Let_def split_beta split: sum.splits)
  have inner: "sums_inv A s s'" if "good A s" and "?inner i (us, s) = Inr (us', s')" for i us s us' s'
  proof -
    have "(\<lambda>(x, y). sums_inv A s y) (us', s')"
    proof (rule for_loop_invariant[OF that(2)])
      show "(\<lambda>(x, y). sums_inv A s y) (us, s)" using that(1) by (simp add: sums_inv_refl)
    next
      fix p a b assume P: "(\<lambda>(x, y). sums_inv A s y) a" and st: "train_player D R (int i) p a = Inr b"
      obtain u1 s1 where a: "a = (u1, s1)" by (cases a)
      obtain u2 s2 where b: "b = (u2, s2)" by (cases b)
      have i1: "sums_inv A s s1" using P a by simp
      have "sums_inv A s1 s2"
        by (rule train_player_sums[OF Rfits sums_inv_good[OF i1] st[unfolded a b]])
      with i1 show "(\<lambda>(x, y). sums_inv A s y) b" using b by (auto intro: sums_inv_trans)
    qed
    then show ?thesis by simp
  qed
  have "(\<lambda>(x, y, s). sums_inv A tr s) (ul, fl, t)"
  proof (rule for_loop_invariant[OF loop])
    show "(\<lambda>(x, y, s). sums_inv A tr s) (utils0, [], tr)" using good by (simp add: sums_inv_refl)
  next
    fix i a b assume P: "(\<lambda>(x, y, s). sums_inv A tr s) a" and st: "?outer i a = Inr b"
    obtain u1 f1 s1 where a: "a = (u1, f1, s1)" by (cases a)
    obtain u2 f2 s2 where b: "b = (u2, f2, s2)" by (cases b)
    have i1: "sums_inv A tr s1" using P a by simp
    from st a b obtain us' sm where inn: "?inner i (u1, s1) = Inr (us', sm)"
      and s2: "s2 = (if i \<noteq> 0 \<and> i mod 10000000 = 0 then snd (writeStrategyToBin (int i) sm) else sm)"
      by (auto simp: Let_def split_beta split: sum.splits if_splits)
    have i2: "sums_inv A s1 sm" by (rule inner[OF sums_inv_good[OF i1] inn])
    have i3: "sums_inv A sm s2"
      unfolding s2 using sums_inv_write[OF sums_inv_good[OF i2]] sums_inv_refl[OF sums_inv_good[OF i2]]
      by simp
    show "(\<lambda>(x, y, s). sums_inv A tr s) b" using b i1 i2 i3 by (auto intro: sums_inv_trans)
  qed
  then have i1: "sums_inv A tr t" by simp
  have "sums_inv A t tr'" unfolding fin by (rule sums_inv_write[OF sums_inv_good[OF i1]])
  with i1 show ?thesis by (rule sums_inv_trans)
qed

text \<open>
  C6. Let the games handed out by \<open>resetGame\<close> agree with \<open>A\<close> (for vanilla CFR when the
  chance action is not skipped, for the sampling solvers when it is) and let the tables
  at the start of \<open>train\<close> be good, as the empty node map of a new trainer is. When
  \<open>train\<close> returns, in whichever mode and after however many iterations, no strategy sum
  of any table is negative, and every table that existed at the start still exists with
  every one of its strategy sums at least as large as it was.
\<close>

theorem strategySum_never_decreases:
  assumes "\<forall>b g r. fits (\<not> b) A (fst (R b g r))"
    and "good A tr"
    and "train D R playerNum utils0 iterations tr = Inr (files, tr')"
  shows "(\<forall>k nd'. mNodeMap tr' k = Some nd' \<longrightarrow> (\<forall>x\<in>set (mStrategySum nd'). 0 \<le> x))
       \<and> (\<forall>k nd. mNodeMap tr k = Some nd \<longrightarrow>
            (\<exists>nd'. mNodeMap tr' k = Some nd'
               \<and> length (mStrategySum nd') = length (mStrategySum nd)
               \<and> (\<forall>a<length (mStrategySum nd). mStrategySum nd ! a \<le> mStrategySum nd' ! a)))"
proof -
  have "sums_inv A tr tr'" by (rule train_sums[OF assms])
  then have "good A tr'" and "grows tr tr'" by (simp_all add: sums_inv_def)
  then show ?thesis unfolding good_def grows_def by blast
qed

lemma example_reset_trainer: "resetGame example_reset b example_trainer = example_trainer"
  by (simp add: resetGame_def example_reset_def example_trainer_def)

lemma example_train:
  "\<exists>files t'. train first_action example_reset 1 [0] 1 example_trainer = Inr (files, t')"
proof -
  from example_CFR obtain t' where c: "CFR example_game 0 1 1 example_trainer = Inr (0, t')"
    by blast
  have m: "mGame example_trainer = example_game" "mUpdate example_trainer ! 0"
    "mModeStr example_trainer = ''standard''"
    by (simp_all add: example_trainer_def)
  have p: "train_player first_action example_reset 0 0 ([0], example_trainer) = Inr ([0], updateAll t')"
    by (simp add: train_player_def example_reset_trainer m c)
  show ?thesis
    by (simp add: train_def for_loop_Suc p split_beta)
qed

theorem strategySum_never_decreases_witness:
  "\<exists>files tr'. train first_action example_reset 1 [0] 1 example_trainer = Inr (files, tr')
     \<and> (\<forall>k nd'. mNodeMap tr' k = Some nd' \<longrightarrow> (\<forall>x\<in>set (mStrategySum nd'). 0 \<le> x))
     \<and> (\<forall>k nd. mNodeMap example_trainer k = Some nd \<longrightarrow>
            (\<exists>nd'. mNodeMap tr' k = Some nd'
               \<and> length (mStrategySum nd') = length (mStrategySum nd)
               \<and> (\<forall>a<length (mStrategySum nd). mStrategySum nd ! a \<le> mStrategySum nd' ! a)))"
proof -
  from example_train obtain files t' where
    ret: "train first_action example_reset 1 [0] 1 example_trainer = Inr (files, t')"
    by blast
  have f: "\<forall>b g r. fits (\<not> b) (\<lambda>k. 2) (fst (example_reset b g r))"
    by (simp add: example_reset_def example_game_def decision_def leaf_def)
  have g: "good (\<lambda>k. 2) example_trainer"
    by (simp add: good_def example_trainer_def)
  show ?thesis
    by (rule exI[of _ files], rule exI[of _ t'],
        rule conjI[OF ret strategySum_never_decreases[OF f g ret]])
qed

section \<open>The best-response pass at a node of the responding player\<close>

text \<open>
  The loops of \<open>CalculateBestResponseValue\<close> thread the memo of best-response strategies
  through their calls. The lemmas below recover from a loop that has returned the memo
  before and after each call and the value each call returned, and describe the index
  that the scan for the best action ends with.
\<close>

lemma argmax_loop_Suc:
  "argmax_loop V (Suc k) =
     (let brAction = argmax_loop V k in if V ! k > V ! brAction then k else brAction)"
  by (simp add: argmax_loop_def)

lemma argmax_loop_least:
  "argmax_loop V k \<le> k \<and> (0 < k \<longrightarrow> argmax_loop V k < k)
     \<and> (\<forall>a<k. V ! a \<le> V ! argmax_loop V k)
     \<and> (\<forall>a<argmax_loop V k. V ! a < V ! argmax_loop V k)"
proof (induction k)
  case 0
  show ?case by (simp add: argmax_loop_def)
next
  case (Suc k)
  let ?b = "argmax_loop V k"
  show ?case
  proof (cases "V ! k > V ! ?b")
    case True
    then have e: "argmax_loop V (Suc k) = k" by (simp add: argmax_loop_Suc)
    have "\<forall>a<Suc k. V ! a \<le> V ! k"
    proof (intro allI impI)
      fix a assume "a < Suc k"
      then consider "a < k" | "a = k" by linarith
      then show "V ! a \<le> V ! k"
      proof cases
        case 1
        then have "V ! a \<le> V ! ?b" using Suc.IH by blast
        then show ?thesis using True by linarith
      next
        case 2
        then show ?thesis by simp
      qed
    qed
    moreover have "\<forall>a<k. V ! a < V ! k"
    proof (intro allI impI)
      fix a assume "a < k"
      then have "V ! a \<le> V ! ?b" using Suc.IH by blast
      then show "V ! a < V ! k" using True by linarith
    qed
    ultimately show ?thesis unfolding e by simp
  next
    case False
    then have e: "argmax_loop V (Suc k) = ?b" by (simp add: argmax_loop_Suc)
    have "\<forall>a<Suc k. V ! a \<le> V ! ?b"
    proof (intro allI impI)
      fix a assume "a < Suc k"
      then consider "a < k" | "a = k" by linarith
      then show "V ! a \<le> V ! ?b"
      proof cases
        case 1
        then show ?thesis using Suc.IH by blast
      next
        case 2
        then show ?thesis using False by simp
      qed
    qed
    moreover have "?b < Suc k" using Suc.IH by simp
    ultimately show ?thesis unfolding e using Suc.IH by simp
  qed
qed

lemma utils_loop:
  assumes "for_loop n
             (\<lambda>a (utils, b).
                case call a b of
                  Inl e \<Rightarrow> Inl e
                | Inr (v, b') \<Rightarrow> Inr (utils @ [v], b'))
             ([], b0) = Inr (utils, bn)"
  shows "\<exists>cs. length utils = n \<and> cs 0 = b0 \<and> cs n = bn
            \<and> (\<forall>a<n. call a (cs a) = Inr (utils ! a, cs (Suc a)))"
  using assms
proof (induction n arbitrary: utils bn)
  case 0
  then show ?case by (auto intro: exI[of _ "\<lambda>_. b0"])
next
  case (Suc n)
  let ?body = "\<lambda>a (utils, b).
                case call a b of
                  Inl e \<Rightarrow> Inl e
                | Inr (v, b') \<Rightarrow> Inr (utils @ [v], b')"
  from Suc.prems obtain us b u where
    loop: "for_loop n ?body ([], b0) = Inr (us, b)"
    and call: "call n b = Inr (u, bn)"
    and res: "utils = us @ [u]"
    by (auto simp: for_loop_Suc split: sum.splits prod.splits)
  from Suc.IH[OF loop] obtain cs where cs:
    "length us = n" "cs 0 = b0" "cs n = b"
    "\<forall>a<n. call a (cs a) = Inr (us ! a, cs (Suc a))"
    by blast
  let ?cs = "cs(Suc n := bn)"
  have 1: "length utils = Suc n" using res cs by simp
  have 2: "?cs 0 = b0" using cs by simp
  have 3: "?cs (Suc n) = bn" by simp
  have 4: "\<forall>a<Suc n. call a (?cs a) = Inr (utils ! a, ?cs (Suc a))"
    using cs call res by (auto simp: nth_append less_Suc_eq)
  show ?case using 1 2 3 4 by blast
qed

lemma weighted_fold:
  "fold (\<lambda>a v. v + utils ! a * bs ! a) [0..<n] (0::real) = (\<Sum>a<n. utils ! a * bs ! a)"
  by (induction n) simp_all

lemma onehot_sum:
  assumes "k < n"
  shows "(\<Sum>a<n. u a * (replicate n (0::real))[k := 1] ! a) = u k"
proof -
  have "(\<Sum>a<n. u a * (replicate n (0::real))[k := 1] ! a)
      = (\<Sum>a\<in>{..<n}. if k = a then u a else 0)"
    by (rule sum.cong) (auto simp: nth_list_update)
  also have "\<dots> = u k" using assms by (simp add: sum.delta)
  finally show ?thesis .
qed

lemma values_inner:
  assumes "for_loop n
             (\<lambda>a (av, b).
                case call a b of
                  Inl e \<Rightarrow> Inl e
                | Inr (v, b') \<Rightarrow> Inr (av[a := av ! a + w * v], b'))
             (av0, b0) = Inr (av, bn)"
    and "n \<le> length av0"
  shows "\<exists>vals ms. ms 0 = b0 \<and> ms n = bn
            \<and> (\<forall>a<n. call a (ms a) = Inr (vals a, ms (Suc a)))
            \<and> length av = length av0
            \<and> (\<forall>a<length av0. av ! a = (if a < n then av0 ! a + w * vals a else av0 ! a))"
  using assms
proof (induction n arbitrary: av bn)
  case 0
  then show ?case by (auto intro: exI[of _ "\<lambda>_. b0"])
next
  case (Suc n)
  let ?body = "\<lambda>a (av, b).
                case call a b of
                  Inl e \<Rightarrow> Inl e
                | Inr (v, b') \<Rightarrow> Inr (av[a := av ! a + w * v], b')"
  from Suc.prems(1) obtain av1 b u where
    loop: "for_loop n ?body (av0, b0) = Inr (av1, b)"
    and call: "call n b = Inr (u, bn)"
    and res: "av = av1[n := av1 ! n + w * u]"
    by (auto simp: for_loop_Suc split: sum.splits prod.splits)
  from Suc.prems(2) have le: "n \<le> length av0" by simp
  from Suc.IH[OF loop le] obtain vals ms where ih:
    "ms 0 = b0" "ms n = b"
    "\<forall>a<n. call a (ms a) = Inr (vals a, ms (Suc a))"
    "length av1 = length av0"
    "\<forall>a<length av0. av1 ! a = (if a < n then av0 ! a + w * vals a else av0 ! a)"
    by blast
  let ?ms = "ms(Suc n := bn)"
  let ?vals = "vals(n := u)"
  have 1: "?ms 0 = b0" using ih by simp
  have 2: "?ms (Suc n) = bn" by simp
  have 3: "\<forall>a<Suc n. call a (?ms a) = Inr (?vals a, ?ms (Suc a))"
    using ih call by (auto simp: less_Suc_eq)
  have 4: "length av = length av0" using res ih by simp
  have 5: "\<forall>a<length av0. av ! a = (if a < Suc n then av0 ! a + w * ?vals a else av0 ! a)"
    using ih Suc.prems(2) unfolding res by (auto simp: nth_list_update less_Suc_eq)
  show ?case
    by (intro exI[of _ ?vals] exI[of _ ?ms] conjI 1 2 3 4 5)
qed

lemma values_outer:
  assumes "for_loop m
             (\<lambda>i. for_loop n
                (\<lambda>a (av, b).
                   case call i a b of
                     Inl e \<Rightarrow> Inl e
                   | Inr (v, b') \<Rightarrow> Inr (av[a := av ! a + w i * v], b')))
             (av0, b0) = Inr (av, bm)"
    and "length av0 = n"
  shows "\<exists>val ms. ms 0 0 = b0 \<and> ms m 0 = bm
            \<and> (\<forall>i<m. ms i n = ms (Suc i) 0)
            \<and> (\<forall>i<m. \<forall>a<n. call i a (ms i a) = Inr (val i a, ms i (Suc a)))
            \<and> length av = n
            \<and> (\<forall>a<n. av ! a = av0 ! a + (\<Sum>i<m. w i * val i a))"
  using assms
proof (induction m arbitrary: av bm)
  case 0
  then show ?case by (auto intro: exI[of _ "\<lambda>_ _. b0"])
next
  case (Suc m)
  let ?inner = "\<lambda>i. for_loop n
                (\<lambda>a (av, b).
                   case call i a b of
                     Inl e \<Rightarrow> Inl e
                   | Inr (v, b') \<Rightarrow> Inr (av[a := av ! a + w i * v], b'))"
  from Suc.prems(1) obtain av1 b1 where
    loop: "for_loop m ?inner (av0, b0) = Inr (av1, b1)"
    and last: "?inner m (av1, b1) = Inr (av, bm)"
    by (auto simp: for_loop_Suc split: sum.splits prod.splits)
  from Suc.IH[OF loop Suc.prems(2)] obtain val ms where ih:
    "ms 0 0 = b0" "ms m 0 = b1"
    "\<forall>i<m. ms i n = ms (Suc i) 0"
    "\<forall>i<m. \<forall>a<n. call i a (ms i a) = Inr (val i a, ms i (Suc a))"
    "length av1 = n"
    "\<forall>a<n. av1 ! a = av0 ! a + (\<Sum>i<m. w i * val i a)"
    by blast
  have le: "n \<le> length av1" using ih by simp
  from values_inner[OF last le] obtain vals ns where inn:
    "ns 0 = b1" "ns n = bm"
    "\<forall>a<n. call m a (ns a) = Inr (vals a, ns (Suc a))"
    "length av = length av1"
    "\<forall>a<length av1. av ! a = (if a < n then av1 ! a + w m * vals a else av1 ! a)"
    by blast
  let ?ms = "ms(m := ns, Suc m := (\<lambda>_. bm))"
  let ?val = "val(m := vals)"
  have 1: "?ms 0 0 = b0" using ih inn by (cases m) auto
  have 2: "?ms (Suc m) 0 = bm" by simp
  have 3: "\<forall>i<Suc m. ?ms i n = ?ms (Suc i) 0" using ih inn by (auto simp: less_Suc_eq)
  have 4: "\<forall>i<Suc m. \<forall>a<n. call i a (?ms i a) = Inr (?val i a, ?ms i (Suc a))"
    using ih inn by (auto simp: less_Suc_eq)
  have 5: "length av = n" using ih inn by simp
  have 6: "\<forall>a<n. av ! a = av0 ! a + (\<Sum>i<Suc m. w i * ?val i a)"
    using ih inn by (simp add: algebra_simps)
  show ?case
    by (intro exI[of _ ?val] exI[of _ ?ms] conjI 1 2 3 4 5 6)
qed

subsection \<open>The branches of the pass\<close>

lemma CalculateBestResponseValue_actor_unfold:
  assumes "\<not> isGameOver game" and "\<not> isChanceNode game" and "currentPlayer game = playerIndex"
  shows "CalculateBestResponseValue (Suc fuel) game playerIndex strategies brs po infoSets =
    (case (if brs (infoSetStr game) = None then
             (case infoSets (infoSetStr game) of
                None \<Rightarrow> Inl (Thrown OutOfRange)
              | Some states \<Rightarrow>
                  (case for_loop (length states)
                          (\<lambda>i. for_loop (actionNum game)
                             (\<lambda>a (actionValues, b).
                                if a < actionNum (fst (states ! i)) then
                                  (case CalculateBestResponseValue fuel
                                          (takeAction (fst (states ! i)) a) playerIndex strategies b
                                          (snd (states ! i)) infoSets of
                                     Inl e \<Rightarrow> Inl e
                                   | Inr (v, b') \<Rightarrow>
                                       Inr (actionValues[a := actionValues ! a + snd (states ! i) * v], b'))
                                else Inl (Thrown IllFormed)))
                          (replicate (actionNum game) 0, brs) of
                     Inl e \<Rightarrow> Inl e
                   | Inr (actionValues, b) \<Rightarrow>
                       Inr (b(infoSetStr game \<mapsto>
                              (replicate (actionNum game) 0)
                                [argmax_loop actionValues (actionNum game) := 1]))))
           else Inr brs) of
       Inl e \<Rightarrow> Inl e
     | Inr brs1 \<Rightarrow>
         (case for_loop (actionNum game)
                 (\<lambda>a (utils, b).
                    case CalculateBestResponseValue fuel (takeAction game a) playerIndex
                             strategies b po infoSets of
                      Inl e \<Rightarrow> Inl e
                    | Inr (v, b') \<Rightarrow> Inr (utils @ [v], b'))
                 ([], brs1) of
            Inl e \<Rightarrow> Inl e
          | Inr (utils, brs2) \<Rightarrow>
              (case brs2 (infoSetStr game) of
                 None \<Rightarrow> Inl (Thrown OutOfRange)
               | Some bs \<Rightarrow> Inr (\<Sum>a<actionNum game. utils ! a * bs ! a, brs2))))"
  by (subst CalculateBestResponseValue.simps(2))
     (simp add: assms Let_def case_prod_unfold weighted_fold
           cong: sum.case_cong option.case_cong if_cong)

lemma CalculateBestResponseValue_chance_unfold:
  assumes "\<not> isGameOver game" and "isChanceNode game"
  shows "CalculateBestResponseValue (Suc fuel) game playerIndex strategies brs po infoSets =
       for_loop (actionNum game)
         (\<lambda>a (nodeUtil, b).
            case CalculateBestResponseValue fuel (takeAction game a) playerIndex strategies b
                      (po * chanceProbability (takeAction game a)) infoSets of
                 Inl e \<Rightarrow> Inl e
               | Inr (v, b') \<Rightarrow> Inr (nodeUtil + chanceProbability (takeAction game a) * v, b'))
         (0, brs)"
  by (subst CalculateBestResponseValue.simps(2)) (simp add: assms Let_def)

lemma CalculateBestResponseValue_other_unfold:
  assumes "\<not> isGameOver game" and "\<not> isChanceNode game" and "currentPlayer game \<noteq> playerIndex"
  shows "CalculateBestResponseValue (Suc fuel) game playerIndex strategies brs po infoSets =
         for_loop (actionNum game)
           (\<lambda>a (nodeUtil, b).
              case CalculateBestResponseValue fuel (takeAction game a) playerIndex strategies b
                        (po * ((strategies ! currentPlayer game) game ! a)) infoSets of
                   Inl e \<Rightarrow> Inl e
                 | Inr (v, b') \<Rightarrow> Inr (nodeUtil + (strategies ! currentPlayer game) game ! a * v, b'))
           (0, brs)"
  by (subst CalculateBestResponseValue.simps(2)) (simp add: assms Let_def)

lemma CalculateBestResponseValue_terminal:
  "isGameOver game \<Longrightarrow>
   CalculateBestResponseValue (Suc fuel) game playerIndex strategies brs po infoSets
     = Inr (payoff game playerIndex, brs)"
  by (subst CalculateBestResponseValue.simps(2)) simp

lemma CalculateBestResponseValue_actor_parts:
  assumes ret: "CalculateBestResponseValue (Suc fuel) game playerIndex strategies brs po infoSets
                  = Inr (v, brs')"
    and node: "\<not> isGameOver game" "\<not> isChanceNode game" "currentPlayer game = playerIndex"
  obtains brs1 utils bs where
    "(if brs (infoSetStr game) = None then
             (case infoSets (infoSetStr game) of
                None \<Rightarrow> Inl (Thrown OutOfRange)
              | Some states \<Rightarrow>
                  (case for_loop (length states)
                          (\<lambda>i. for_loop (actionNum game)
                             (\<lambda>a (actionValues, b).
                                if a < actionNum (fst (states ! i)) then
                                  (case CalculateBestResponseValue fuel
                                          (takeAction (fst (states ! i)) a) playerIndex strategies b
                                          (snd (states ! i)) infoSets of
                                     Inl e \<Rightarrow> Inl e
                                   | Inr (v, b') \<Rightarrow>
                                       Inr (actionValues[a := actionValues ! a + snd (states ! i) * v], b'))
                                else Inl (Thrown IllFormed)))
                          (replicate (actionNum game) 0, brs) of
                     Inl e \<Rightarrow> Inl e
                   | Inr (actionValues, b) \<Rightarrow>
                       Inr (b(infoSetStr game \<mapsto>
                              (replicate (actionNum game) 0)
                                [argmax_loop actionValues (actionNum game) := 1]))))
           else Inr brs) = Inr brs1"
    and "for_loop (actionNum game)
                 (\<lambda>a (utils, b).
                    case CalculateBestResponseValue fuel (takeAction game a) playerIndex
                             strategies b po infoSets of
                      Inl e \<Rightarrow> Inl e
                    | Inr (v, b') \<Rightarrow> Inr (utils @ [v], b'))
                 ([], brs1) = Inr (utils, brs')"
    and "brs' (infoSetStr game) = Some bs"
    and "v = (\<Sum>a<actionNum game. utils ! a * bs ! a)"
proof -
  let ?first = "(if brs (infoSetStr game) = None then
             (case infoSets (infoSetStr game) of
                None \<Rightarrow> Inl (Thrown OutOfRange)
              | Some states \<Rightarrow>
                  (case for_loop (length states)
                          (\<lambda>i. for_loop (actionNum game)
                             (\<lambda>a (actionValues, b).
                                if a < actionNum (fst (states ! i)) then
                                  (case CalculateBestResponseValue fuel
                                          (takeAction (fst (states ! i)) a) playerIndex strategies b
                                          (snd (states ! i)) infoSets of
                                     Inl e \<Rightarrow> Inl e
                                   | Inr (v, b') \<Rightarrow>
                                       Inr (actionValues[a := actionValues ! a + snd (states ! i) * v], b'))
                                else Inl (Thrown IllFormed)))
                          (replicate (actionNum game) 0, brs) of
                     Inl e \<Rightarrow> Inl e
                   | Inr (actionValues, b) \<Rightarrow>
                       Inr (b(infoSetStr game \<mapsto>
                              (replicate (actionNum game) 0)
                                [argmax_loop actionValues (actionNum game) := 1]))))
           else Inr brs)"
  let ?body = "(\<lambda>a (utils, b).
                    case CalculateBestResponseValue fuel (takeAction game a) playerIndex
                             strategies b po infoSets of
                      Inl e \<Rightarrow> Inl e
                    | Inr (v, b') \<Rightarrow> Inr (utils @ [v], b'))"
  note E = ret[unfolded CalculateBestResponseValue_actor_unfold[OF node]]
  show thesis
  proof (cases ?first)
    case (Inl e)
    with E show thesis by (simp only: sum.case sum.simps)
  next
    case first: (Inr brs1)
    show thesis
    proof (cases "for_loop (actionNum game) ?body ([], brs1)")
      case (Inl e)
      with E first show thesis by (simp only: sum.case sum.simps)
    next
      case (Inr r)
      obtain utils brs2 where r: "r = (utils, brs2)" by (cases r)
      show thesis
      proof (cases "brs2 (infoSetStr game)")
        case None
        with E first Inr r show thesis by (simp only: sum.case sum.simps prod.case option.case)
      next
        case (Some bs)
        with E first Inr r have "Inr (\<Sum>a<actionNum game. utils ! a * bs ! a, brs2) = (Inr (v, brs') :: stop + real \<times> (string \<rightharpoonup> real list))"
          by (simp only: sum.case sum.simps prod.case option.case)
        then have v: "v = (\<Sum>a<actionNum game. utils ! a * bs ! a)" and b: "brs2 = brs'"
          by simp_all
        show thesis
          by (rule that[OF first _ _ v]) (use Inr r b Some in simp_all)
      qed
    qed
  qed
qed

lemma CalculateBestResponseValue_memo:
  "CalculateBestResponseValue fuel game playerIndex strategies brs po infoSets = Inr (v, brs')
     \<Longrightarrow> brs \<subseteq>\<^sub>m brs'"
proof (induction fuel arbitrary: game brs po v brs')
  case 0
  then show ?case by simp
next
  case (Suc fuel)
  have call: "m \<subseteq>\<^sub>m b'"
    if "CalculateBestResponseValue fuel g playerIndex strategies b q infoSets = Inr (u, b')"
      and "m \<subseteq>\<^sub>m b" for g b q u b' m
    using Suc.IH[OF that(1)] that(2) by (rule map_le_trans[rotated])
  show ?case
  proof (cases "isGameOver game")
    case True
    with Suc.prems show ?thesis by (simp add: CalculateBestResponseValue_terminal)
  next
    case over: False
    show ?thesis
    proof (cases "isChanceNode game")
      case True
      note loop = Suc.prems[unfolded CalculateBestResponseValue_chance_unfold[OF over True]]
      have "brs \<subseteq>\<^sub>m snd (v, brs')"
        by (rule for_loop_invariant[OF loop, where P = "\<lambda>s. brs \<subseteq>\<^sub>m snd s"])
           (auto split: sum.splits intro: call)
      then show ?thesis by simp
    next
      case chance: False
      show ?thesis
      proof (cases "currentPlayer game = playerIndex")
        case False
        note loop = Suc.prems[unfolded CalculateBestResponseValue_other_unfold[OF over chance False]]
        have "brs \<subseteq>\<^sub>m snd (v, brs')"
          by (rule for_loop_invariant[OF loop, where P = "\<lambda>s. brs \<subseteq>\<^sub>m snd s"])
             (auto split: sum.splits intro: call)
        then show ?thesis by simp
      next
        case True
        from CalculateBestResponseValue_actor_parts[OF Suc.prems over chance True]
        obtain brs1 utils bs where
          first: "(if brs (infoSetStr game) = None then
             (case infoSets (infoSetStr game) of
                None \<Rightarrow> Inl (Thrown OutOfRange)
              | Some states \<Rightarrow>
                  (case for_loop (length states)
                          (\<lambda>i. for_loop (actionNum game)
                             (\<lambda>a (actionValues, b).
                                if a < actionNum (fst (states ! i)) then
                                  (case CalculateBestResponseValue fuel
                                          (takeAction (fst (states ! i)) a) playerIndex strategies b
                                          (snd (states ! i)) infoSets of
                                     Inl e \<Rightarrow> Inl e
                                   | Inr (v, b') \<Rightarrow>
                                       Inr (actionValues[a := actionValues ! a + snd (states ! i) * v], b'))
                                else Inl (Thrown IllFormed)))
                          (replicate (actionNum game) 0, brs) of
                     Inl e \<Rightarrow> Inl e
                   | Inr (actionValues, b) \<Rightarrow>
                       Inr (b(infoSetStr game \<mapsto>
                              (replicate (actionNum game) 0)
                                [argmax_loop actionValues (actionNum game) := 1]))))
           else Inr brs) = Inr brs1"
          and loop: "for_loop (actionNum game)
                 (\<lambda>a (utils, b).
                    case CalculateBestResponseValue fuel (takeAction game a) playerIndex
                             strategies b po infoSets of
                      Inl e \<Rightarrow> Inl e
                    | Inr (v, b') \<Rightarrow> Inr (utils @ [v], b'))
                 ([], brs1) = Inr (utils, brs')"
          by blast
        have one: "brs \<subseteq>\<^sub>m brs1"
        proof (cases "brs (infoSetStr game) = None")
          case False
          with first show ?thesis by simp
        next
          case new: True
          from first new obtain states av b where
            outer: "for_loop (length states)
                          (\<lambda>i. for_loop (actionNum game)
                             (\<lambda>a (actionValues, b).
                                if a < actionNum (fst (states ! i)) then
                                  (case CalculateBestResponseValue fuel
                                          (takeAction (fst (states ! i)) a) playerIndex strategies b
                                          (snd (states ! i)) infoSets of
                                     Inl e \<Rightarrow> Inl e
                                   | Inr (v, b') \<Rightarrow>
                                       Inr (actionValues[a := actionValues ! a + snd (states ! i) * v], b'))
                                else Inl (Thrown IllFormed)))
                          (replicate (actionNum game) 0, brs) = Inr (av, b)"
            and b: "brs1 = b(infoSetStr game \<mapsto>
                              (replicate (actionNum game) 0)[argmax_loop av (actionNum game) := 1])"
            by (auto split: option.splits sum.splits)
          have "brs \<subseteq>\<^sub>m snd (av, b)"
          proof (rule for_loop_invariant[OF outer, where P = "\<lambda>s. brs \<subseteq>\<^sub>m snd s"])
            show "brs \<subseteq>\<^sub>m snd (replicate (actionNum game) 0, brs)" by simp
          next
            fix i s s'
            assume P: "brs \<subseteq>\<^sub>m snd s"
              and inner: "for_loop (actionNum game)
                             (\<lambda>a (actionValues, b).
                                if a < actionNum (fst (states ! i)) then
                                  (case CalculateBestResponseValue fuel
                                          (takeAction (fst (states ! i)) a) playerIndex strategies b
                                          (snd (states ! i)) infoSets of
                                     Inl e \<Rightarrow> Inl e
                                   | Inr (v, b') \<Rightarrow>
                                       Inr (actionValues[a := actionValues ! a + snd (states ! i) * v], b'))
                                else Inl (Thrown IllFormed)) s = Inr s'"
            show "brs \<subseteq>\<^sub>m snd s'"
              by (rule for_loop_invariant[OF inner, where P = "\<lambda>s. brs \<subseteq>\<^sub>m snd s"])
                 (auto split: sum.splits if_splits intro: call P)
          qed
          then have "brs \<subseteq>\<^sub>m b" by simp
          then show ?thesis unfolding b using new by (auto simp: map_le_def dom_def)
        qed
        have "brs \<subseteq>\<^sub>m snd (utils, brs')"
          by (rule for_loop_invariant[OF loop, where P = "\<lambda>s. brs \<subseteq>\<^sub>m snd s"])
             (auto split: sum.splits intro: call one)
        then show ?thesis by simp
      qed
    qed
  qed
qed

text \<open>
  C4. Let the pass return at a state that is neither terminal nor a chance node, whose
  actor is the responding player and which has an action. The memo then holds a vector
  \<open>bs\<close> for the key of the state, and the value returned is the sum over the actions of
  the value \<open>us a\<close> of the pass on the successor \<open>takeAction game a\<close>, called with the reach
  \<open>po\<close> of the state, times \<open>bs ! a\<close>. If the memo had a vector for the key on entry, it is
  that one. If it had none, the information sets hold a vector of states for the key;
  the pass has been called on the successor \<open>a\<close> of each stored state with the reach
  stored with it, \<open>V a\<close> is the sum over the stored states of the stored reach times the
  value of that call, \<open>brAction\<close> is an action with no larger \<open>V\<close> anywhere and a strictly
  smaller \<open>V\<close> at every lower index, \<open>bs\<close> is 1 at \<open>brAction\<close> and 0 elsewhere, it is written
  to the memo before the successors of the state itself are visited and is still there
  at the end, and the value returned is the value of the successor \<open>brAction\<close>.
  \<open>ms i a\<close> is the memo before the call for action \<open>a\<close> of the stored state \<open>i\<close>, \<open>cs a\<close> the
  memo before the call for successor \<open>a\<close> of the state.
\<close>

theorem best_response_at_actor:
  assumes ret: "CalculateBestResponseValue (Suc fuel) game playerIndex strategies brs po infoSets
                  = Inr (v, brs')"
    and node: "\<not> isGameOver game" "\<not> isChanceNode game" "currentPlayer game = playerIndex"
    and acts: "0 < actionNum game"
  shows "\<exists>bs us cs.
       brs' (infoSetStr game) = Some bs
     \<and> cs (actionNum game) = brs'
     \<and> (\<forall>a<actionNum game.
           CalculateBestResponseValue fuel (takeAction game a) playerIndex strategies (cs a) po infoSets
             = Inr (us a, cs (Suc a)))
     \<and> v = (\<Sum>a<actionNum game. us a * bs ! a)
     \<and> (case brs (infoSetStr game) of
          Some old \<Rightarrow> cs 0 = brs \<and> bs = old
        | None \<Rightarrow>
            (\<exists>states val ms V brAction.
                infoSets (infoSetStr game) = Some states
              \<and> ms 0 0 = brs
              \<and> (\<forall>i<length states. ms i (actionNum game) = ms (Suc i) 0)
              \<and> (\<forall>i<length states. \<forall>a<actionNum game.
                    a < actionNum (fst (states ! i))
                  \<and> CalculateBestResponseValue fuel (takeAction (fst (states ! i)) a) playerIndex
                        strategies (ms i a) (snd (states ! i)) infoSets
                      = Inr (val i a, ms i (Suc a)))
              \<and> (\<forall>a<actionNum game. V a = (\<Sum>i<length states. snd (states ! i) * val i a))
              \<and> brAction < actionNum game
              \<and> (\<forall>a<actionNum game. V a \<le> V brAction)
              \<and> (\<forall>a<brAction. V a < V brAction)
              \<and> bs = (replicate (actionNum game) 0)[brAction := 1]
              \<and> cs 0 = (ms (length states) 0)(infoSetStr game \<mapsto> bs)
              \<and> v = us brAction))"
proof -
  let ?n = "actionNum game"
  let ?key = "infoSetStr game"
  let ?call = "\<lambda>i a b. if a < actionNum (fst (states ! i))
                 then CalculateBestResponseValue fuel (takeAction (fst (states ! i)) a) playerIndex
                        strategies b (snd (states ! i)) infoSets
                 else Inl (Thrown IllFormed)"
  from CalculateBestResponseValue_actor_parts[OF ret node]
  obtain brs1 utils bs where
    first: "(if brs ?key = None then
             (case infoSets ?key of
                None \<Rightarrow> Inl (Thrown OutOfRange)
              | Some states \<Rightarrow>
                  (case for_loop (length states)
                          (\<lambda>i. for_loop ?n
                             (\<lambda>a (actionValues, b).
                                if a < actionNum (fst (states ! i)) then
                                  (case CalculateBestResponseValue fuel
                                          (takeAction (fst (states ! i)) a) playerIndex strategies b
                                          (snd (states ! i)) infoSets of
                                     Inl e \<Rightarrow> Inl e
                                   | Inr (v, b') \<Rightarrow>
                                       Inr (actionValues[a := actionValues ! a + snd (states ! i) * v], b'))
                                else Inl (Thrown IllFormed)))
                          (replicate ?n 0, brs) of
                     Inl e \<Rightarrow> Inl e
                   | Inr (actionValues, b) \<Rightarrow>
                       Inr (b(?key \<mapsto> (replicate ?n 0)[argmax_loop actionValues ?n := 1]))))
           else Inr brs) = Inr brs1"
    and loop: "for_loop ?n
                 (\<lambda>a (utils, b).
                    case CalculateBestResponseValue fuel (takeAction game a) playerIndex
                             strategies b po infoSets of
                      Inl e \<Rightarrow> Inl e
                    | Inr (v, b') \<Rightarrow> Inr (utils @ [v], b'))
                 ([], brs1) = Inr (utils, brs')"
    and bs: "brs' ?key = Some bs"
    and v: "v = (\<Sum>a<?n. utils ! a * bs ! a)"
    by blast
  from utils_loop[OF loop] obtain cs where cs:
    "cs 0 = brs1" "cs ?n = brs'"
    "\<forall>a<?n. CalculateBestResponseValue fuel (takeAction game a) playerIndex strategies (cs a) po infoSets
             = Inr (utils ! a, cs (Suc a))"
    by blast
  have step: "m \<subseteq>\<^sub>m b'"
    if "CalculateBestResponseValue fuel g playerIndex strategies b q infoSets = Inr (u, b')"
      and "m \<subseteq>\<^sub>m b" for g b q u b' m
    using CalculateBestResponseValue_memo[OF that(1)] that(2) by (rule map_le_trans[rotated])
  have "brs1 \<subseteq>\<^sub>m snd (utils, brs')"
    by (rule for_loop_invariant[OF loop, where P = "\<lambda>s. brs1 \<subseteq>\<^sub>m snd s"])
       (auto split: sum.splits intro: step)
  then have later: "brs1 \<subseteq>\<^sub>m brs'" by simp
  have rest: "case brs ?key of
          Some old \<Rightarrow> cs 0 = brs \<and> bs = old
        | None \<Rightarrow>
            (\<exists>states val ms V brAction.
                infoSets ?key = Some states
              \<and> ms 0 0 = brs
              \<and> (\<forall>i<length states. ms i ?n = ms (Suc i) 0)
              \<and> (\<forall>i<length states. \<forall>a<?n.
                    a < actionNum (fst (states ! i))
                  \<and> CalculateBestResponseValue fuel (takeAction (fst (states ! i)) a) playerIndex
                        strategies (ms i a) (snd (states ! i)) infoSets
                      = Inr (val i a, ms i (Suc a)))
              \<and> (\<forall>a<?n. V a = (\<Sum>i<length states. snd (states ! i) * val i a))
              \<and> brAction < ?n
              \<and> (\<forall>a<?n. V a \<le> V brAction)
              \<and> (\<forall>a<brAction. V a < V brAction)
              \<and> bs = (replicate ?n 0)[brAction := 1]
              \<and> cs 0 = (ms (length states) 0)(?key \<mapsto> bs)
              \<and> v = (\<lambda>a. utils ! a) brAction)"
  proof (cases "brs ?key")
    case (Some old)
    with first have b1: "brs1 = brs" by simp
    from later Some bs have "bs = old" unfolding b1 by (auto simp: map_le_def dom_def)
    with Some cs(1) b1 show ?thesis by simp
  next
    case None
    from first None obtain states av b where
      states: "infoSets ?key = Some states"
      and outer: "for_loop (length states)
                          (\<lambda>i. for_loop ?n
                             (\<lambda>a (actionValues, b).
                                if a < actionNum (fst (states ! i)) then
                                  (case CalculateBestResponseValue fuel
                                          (takeAction (fst (states ! i)) a) playerIndex strategies b
                                          (snd (states ! i)) infoSets of
                                     Inl e \<Rightarrow> Inl e
                                   | Inr (v, b') \<Rightarrow>
                                       Inr (actionValues[a := actionValues ! a + snd (states ! i) * v], b'))
                                else Inl (Thrown IllFormed)))
                          (replicate ?n 0, brs) = Inr (av, b)"
      and b1: "brs1 = b(?key \<mapsto> (replicate ?n 0)[argmax_loop av ?n := 1])"
      by (auto split: option.splits sum.splits)
    let ?call = "\<lambda>i a b. if a < actionNum (fst (states ! i))
                 then CalculateBestResponseValue fuel (takeAction (fst (states ! i)) a) playerIndex
                        strategies b (snd (states ! i)) infoSets
                 else Inl (Thrown IllFormed)"
    have body: "(\<lambda>i. for_loop ?n
                             (\<lambda>a (actionValues, b).
                                if a < actionNum (fst (states ! i)) then
                                  (case CalculateBestResponseValue fuel
                                          (takeAction (fst (states ! i)) a) playerIndex strategies b
                                          (snd (states ! i)) infoSets of
                                     Inl e \<Rightarrow> Inl e
                                   | Inr (v, b') \<Rightarrow>
                                       Inr (actionValues[a := actionValues ! a + snd (states ! i) * v], b'))
                                else Inl (Thrown IllFormed)))
              = (\<lambda>i. for_loop ?n
                   (\<lambda>a (av, b).
                      case ?call i a b of
                        Inl e \<Rightarrow> Inl e
                      | Inr (v, b') \<Rightarrow> Inr (av[a := av ! a + snd (states ! i) * v], b')))"
      by (rule ext, rule arg_cong[where f = "for_loop ?n"]) (auto intro!: ext)
    from values_outer[OF outer[unfolded body] length_replicate] obtain val ms where tr:
      "ms 0 0 = brs" "ms (length states) 0 = b"
      "\<forall>i<length states. ms i ?n = ms (Suc i) 0"
      "\<forall>i<length states. \<forall>a<?n. ?call i a (ms i a) = Inr (val i a, ms i (Suc a))"
      "length av = ?n"
      "\<forall>a<?n. av ! a = replicate ?n 0 ! a + (\<Sum>i<length states. snd (states ! i) * val i a)"
      by auto
    let ?star = "argmax_loop av ?n"
    let ?hot = "(replicate ?n (0::real))[?star := 1]"
    have calls: "\<forall>i<length states. \<forall>a<?n.
                    a < actionNum (fst (states ! i))
                  \<and> CalculateBestResponseValue fuel (takeAction (fst (states ! i)) a) playerIndex
                        strategies (ms i a) (snd (states ! i)) infoSets
                      = Inr (val i a, ms i (Suc a))"
    proof (intro allI impI)
      fix i a assume "i < length states" "a < ?n"
      with tr(4) have "?call i a (ms i a) = Inr (val i a, ms i (Suc a))" by blast
      then show "a < actionNum (fst (states ! i))
                  \<and> CalculateBestResponseValue fuel (takeAction (fst (states ! i)) a) playerIndex
                        strategies (ms i a) (snd (states ! i)) infoSets
                      = Inr (val i a, ms i (Suc a))"
        by (cases "a < actionNum (fst (states ! i))") simp_all
    qed
    have V: "\<forall>a<?n. (\<lambda>a. av ! a) a = (\<Sum>i<length states. snd (states ! i) * val i a)"
      using tr(6) by simp
    from argmax_loop_least[of av ?n] acts have
      star: "?star < ?n" and most: "\<forall>a<?n. (\<lambda>a. av ! a) a \<le> (\<lambda>a. av ! a) ?star"
      and least: "\<forall>a<?star. (\<lambda>a. av ! a) a < (\<lambda>a. av ! a) ?star"
      by simp_all
    have "brs1 ?key = Some ?hot" unfolding b1 by simp
    with later bs have hot: "bs = ?hot" by (auto simp: map_le_def dom_def)
    have c0: "cs 0 = (ms (length states) 0)(?key \<mapsto> bs)"
      unfolding cs(1) b1 tr(2) hot ..
    have pay: "v = (\<lambda>a. utils ! a) ?star"
      unfolding v hot by (rule onehot_sum[OF star])
    have "\<exists>states val ms V brAction.
                infoSets ?key = Some states
              \<and> ms 0 0 = brs
              \<and> (\<forall>i<length states. ms i ?n = ms (Suc i) 0)
              \<and> (\<forall>i<length states. \<forall>a<?n.
                    a < actionNum (fst (states ! i))
                  \<and> CalculateBestResponseValue fuel (takeAction (fst (states ! i)) a) playerIndex
                        strategies (ms i a) (snd (states ! i)) infoSets
                      = Inr (val i a, ms i (Suc a)))
              \<and> (\<forall>a<?n. V a = (\<Sum>i<length states. snd (states ! i) * val i a))
              \<and> brAction < ?n
              \<and> (\<forall>a<?n. V a \<le> V brAction)
              \<and> (\<forall>a<brAction. V a < V brAction)
              \<and> bs = (replicate ?n 0)[brAction := 1]
              \<and> cs 0 = (ms (length states) 0)(?key \<mapsto> bs)
              \<and> v = (\<lambda>a. utils ! a) brAction"
      by (intro exI[of _ states] exI[of _ val] exI[of _ ms] exI[of _ "\<lambda>a. av ! a"] exI[of _ ?star]
            conjI states tr(1) tr(3) calls V star most least hot c0 pay)
    then show ?thesis unfolding None by (simp only: option.case)
  qed
  show ?thesis
    by (intro exI[of _ bs] exI[of _ "\<lambda>a. utils ! a"] exI[of _ cs] conjI bs cs(2) cs(3) v rest)
qed

subsection \<open>Two states in one information set\<close>

definition state_A :: game where
  "state_A = decision 0 ''a'' [leaf [2, - 2], leaf [0, 0]]"

definition state_B :: game where
  "state_B = decision 0 ''a'' [leaf [- 1, 1], leaf [1, - 1]]"

definition example_infoSets :: "string \<rightharpoonup> (game \<times> real) list" where
  "example_infoSets = [''a'' \<mapsto> [(state_A, 1 / 2), (state_B, 1 / 2)]]"

lemma example_best_response:
  "CalculateBestResponseValue (Suc (Suc 0)) state_A 0 [] Map.empty (1 / 2) example_infoSets
     = Inr (2, [''a'' \<mapsto> [1, 0]])"
  unfolding state_A_def
  by (simp add: CalculateBestResponseValue_actor_unfold CalculateBestResponseValue_terminal
        for_loop_Suc argmax_loop_Suc argmax_loop_def example_infoSets_def state_A_def state_B_def)

theorem best_response_at_actor_witness:
  "CalculateBestResponseValue (Suc (Suc 0)) state_A 0 [] Map.empty (1 / 2) example_infoSets
     = Inr (2, [''a'' \<mapsto> [1, 0]])
   \<and> (\<exists>bs us cs.
       [''a'' \<mapsto> [1, 0]] (infoSetStr state_A) = Some bs
     \<and> cs (actionNum state_A) = [''a'' \<mapsto> [1, 0]]
     \<and> (\<forall>a<actionNum state_A.
           CalculateBestResponseValue (Suc 0) (takeAction state_A a) 0 [] (cs a) (1 / 2) example_infoSets
             = Inr (us a, cs (Suc a)))
     \<and> 2 = (\<Sum>a<actionNum state_A. us a * bs ! a)
     \<and> (case Map.empty (infoSetStr state_A) of
          Some old \<Rightarrow> cs 0 = Map.empty \<and> bs = old
        | None \<Rightarrow>
            (\<exists>states val ms V brAction.
                example_infoSets (infoSetStr state_A) = Some states
              \<and> ms 0 0 = Map.empty
              \<and> (\<forall>i<length states. ms i (actionNum state_A) = ms (Suc i) 0)
              \<and> (\<forall>i<length states. \<forall>a<actionNum state_A.
                    a < actionNum (fst (states ! i))
                  \<and> CalculateBestResponseValue (Suc 0) (takeAction (fst (states ! i)) a) 0
                        [] (ms i a) (snd (states ! i)) example_infoSets
                      = Inr (val i a, ms i (Suc a)))
              \<and> (\<forall>a<actionNum state_A. V a = (\<Sum>i<length states. snd (states ! i) * val i a))
              \<and> brAction < actionNum state_A
              \<and> (\<forall>a<actionNum state_A. V a \<le> V brAction)
              \<and> (\<forall>a<brAction. V a < V brAction)
              \<and> bs = (replicate (actionNum state_A) 0)[brAction := 1]
              \<and> cs 0 = (ms (length states) 0)(infoSetStr state_A \<mapsto> bs)
              \<and> 2 = us brAction)))"
proof -
  note ret = example_best_response
  have over: "\<not> isGameOver state_A" and chance: "\<not> isChanceNode state_A"
    and actor: "currentPlayer state_A = 0" and acts: "0 < actionNum state_A"
    by (simp_all add: state_A_def)
  show ?thesis
    by (rule conjI[OF ret best_response_at_actor[OF ret over chance actor acts]])
qed

section \<open>When the best-response pass returns\<close>

text \<open>
  A run that has returned within \<open>fuel\<close> calls returns the same value and memo within any
  larger number, so the result of the pass does not depend on the count. The pass returns
  on every state of a set \<open>S\<close> of states that is closed under taking actions, provided the
  information sets hold, for the key of each state of the responding player in \<open>S\<close>, only
  non-terminal states of \<open>S\<close> that are no larger than it and have at least as many actions;
  the size of the state is enough fuel. Without the bound on the stored states the pass
  can call itself for ever: a stored state may be an ancestor of the state visited.
\<close>

lemma for_loop_mono:
  assumes "for_loop n f s = Inr r"
    and "\<And>a s s'. a < n \<Longrightarrow> f a s = Inr s' \<Longrightarrow> g a s = Inr s'"
  shows "for_loop n g s = Inr r"
  using assms
proof (induction n arbitrary: r)
  case 0
  then show ?case by simp
next
  case (Suc n)
  from Suc.prems(1) obtain sn where sn: "for_loop n f s = Inr sn" and b: "f n sn = Inr r"
    by (auto simp: for_loop_Suc split: sum.splits)
  have "for_loop n g s = Inr sn" by (rule Suc.IH[OF sn]) (simp add: Suc.prems(2))
  moreover have "g n sn = Inr r" by (rule Suc.prems(2)[OF _ b]) simp
  ultimately show ?case by (simp add: for_loop_Suc)
qed

lemma for_loop_returns:
  assumes "P s"
    and "\<And>a s. a < n \<Longrightarrow> P s \<Longrightarrow> \<exists>s'. body a s = Inr s' \<and> P s'"
  shows "\<exists>r. for_loop n body s = Inr r \<and> P r"
  using assms
proof (induction n)
  case 0
  then show ?case by simp
next
  case (Suc n)
  have "\<exists>r. for_loop n body s = Inr r \<and> P r"
    by (rule Suc.IH[OF Suc.prems(1)]) (simp add: Suc.prems(2))
  then obtain sn where sn: "for_loop n body s = Inr sn" "P sn" by blast
  from Suc.prems(2)[of n sn] sn(2) obtain r where "body n sn = Inr r" "P r" by auto
  with sn show ?case by (auto simp: for_loop_Suc)
qed

lemma CalculateBestResponseValue_more_fuel:
  "CalculateBestResponseValue fuel game playerIndex strategies brs po infoSets = Inr r
     \<Longrightarrow> CalculateBestResponseValue (Suc fuel) game playerIndex strategies brs po infoSets = Inr r"
proof (induction fuel arbitrary: game brs po r)
  case 0
  then show ?case by simp
next
  case (Suc fuel)
  have call: "(case CalculateBestResponseValue (Suc fuel) g playerIndex strategies b q infoSets of
                 Inl e \<Rightarrow> Inl e | Inr x \<Rightarrow> k x) = Inr s'"
    if "(case CalculateBestResponseValue fuel g playerIndex strategies b q infoSets of
                 Inl e \<Rightarrow> Inl e | Inr x \<Rightarrow> k x) = Inr s'"
    for g b q s' and k :: "real \<times> (string \<rightharpoonup> real list) \<Rightarrow> stop + 's"
  proof (cases "CalculateBestResponseValue fuel g playerIndex strategies b q infoSets")
    case (Inl e)
    with that show ?thesis by simp
  next
    case (Inr x)
    from Suc.IH[OF Inr] that Inr show ?thesis by simp
  qed
  show ?case
  proof (cases "isGameOver game")
    case True
    with Suc.prems show ?thesis by (simp add: CalculateBestResponseValue_terminal)
  next
    case over: False
    show ?thesis
    proof (cases "isChanceNode game")
      case True
      note loop = Suc.prems[unfolded CalculateBestResponseValue_chance_unfold[OF over True]]
      show ?thesis
        unfolding CalculateBestResponseValue_chance_unfold[OF over True]
        by (rule for_loop_mono[OF loop]) (auto simp: case_prod_unfold intro: call)
    next
      case chance: False
      show ?thesis
      proof (cases "currentPlayer game = playerIndex")
        case False
        note loop = Suc.prems[unfolded CalculateBestResponseValue_other_unfold[OF over chance False]]
        show ?thesis
          unfolding CalculateBestResponseValue_other_unfold[OF over chance False]
          by (rule for_loop_mono[OF loop]) (auto simp: case_prod_unfold intro: call)
      next
        case True
        let ?n = "actionNum game"
        let ?key = "infoSetStr game"
        let ?inner = "\<lambda>fuel states i. for_loop ?n
                             (\<lambda>a (actionValues, b).
                                if a < actionNum (fst (states ! i)) then
                                  (case CalculateBestResponseValue fuel
                                          (takeAction (fst (states ! i)) a) playerIndex strategies b
                                          (snd (states ! i)) infoSets of
                                     Inl e \<Rightarrow> Inl e
                                   | Inr (v, b') \<Rightarrow>
                                       Inr (actionValues[a := actionValues ! a + snd (states ! i) * v], b'))
                                else Inl (Thrown IllFormed))"
        let ?first = "\<lambda>fuel. (if brs ?key = None then
             (case infoSets ?key of
                None \<Rightarrow> Inl (Thrown OutOfRange)
              | Some states \<Rightarrow>
                  (case for_loop (length states) (?inner fuel states) (replicate ?n 0, brs) of
                     Inl e \<Rightarrow> Inl e
                   | Inr (actionValues, b) \<Rightarrow>
                       Inr (b(?key \<mapsto> (replicate ?n 0)[argmax_loop actionValues ?n := 1]))))
           else Inr brs)"
        let ?body = "\<lambda>fuel a (utils, b).
                    case CalculateBestResponseValue fuel (takeAction game a) playerIndex
                             strategies b po infoSets of
                      Inl e \<Rightarrow> Inl e
                    | Inr (v, b') \<Rightarrow> Inr (utils @ [v :: real], b')"
        obtain v brs' where r: "r = (v, brs')" by (cases r)
        from CalculateBestResponseValue_actor_parts[OF Suc.prems[unfolded r] over chance True]
        obtain brs1 utils bs where
          first: "?first fuel = Inr brs1"
          and loop: "for_loop ?n (?body fuel) ([], brs1) = Inr (utils, brs')"
          and bs: "brs' ?key = Some bs"
          and v: "v = (\<Sum>a<?n. utils ! a * bs ! a)"
          by blast
        have inner: "?inner (Suc fuel) states i s = Inr s'" if "?inner fuel states i s = Inr s'"
          for states i s s'
          by (rule for_loop_mono[OF that]) (auto simp: case_prod_unfold split: if_splits intro: call)
        have first': "?first (Suc fuel) = Inr brs1"
        proof (cases "brs ?key = None")
          case False
          from first show ?thesis unfolding if_not_P[OF False] .
        next
          case new: True
          from first new obtain states av b where
            states: "infoSets ?key = Some states"
            and outer: "for_loop (length states) (?inner fuel states) (replicate ?n 0, brs) = Inr (av, b)"
            and b1: "brs1 = b(?key \<mapsto> (replicate ?n 0)[argmax_loop av ?n := 1])"
            by (auto split: option.splits sum.splits)
          have "for_loop (length states) (?inner (Suc fuel) states) (replicate ?n 0, brs) = Inr (av, b)"
            by (rule for_loop_mono[OF outer]) (rule inner)
          then show ?thesis using new states b1 by simp
        qed
        have loop': "for_loop ?n (?body (Suc fuel)) ([], brs1) = Inr (utils, brs')"
          by (rule for_loop_mono[OF loop]) (auto simp: case_prod_unfold intro: call)
        show ?thesis
          unfolding CalculateBestResponseValue_actor_unfold[OF over chance True] first' r
          using loop' bs v by simp
      qed
    qed
  qed
qed

lemma CalculateBestResponseValue_fuel:
  assumes "CalculateBestResponseValue fuel game playerIndex strategies brs po infoSets = Inr r"
    and "fuel \<le> fuel'"
  shows "CalculateBestResponseValue fuel' game playerIndex strategies brs po infoSets = Inr r"
proof -
  have "CalculateBestResponseValue (fuel + k) game playerIndex strategies brs po infoSets = Inr r" for k
    by (induction k) (simp_all add: assms(1) CalculateBestResponseValue_more_fuel)
  from this[of "fuel' - fuel"] assms(2) show ?thesis by simp
qed

lemma size_game_pos: "0 < size (g :: game)"
  by (cases g) simp

lemma CalculateBestResponseValue_returns:
  assumes closed: "\<And>g a. g \<in> S \<Longrightarrow> \<not> isGameOver g \<Longrightarrow> a < actionNum g \<Longrightarrow> takeAction g a \<in> S"
    and stored: "\<And>g. g \<in> S \<Longrightarrow> \<not> isGameOver g \<Longrightarrow> \<not> isChanceNode g
                   \<Longrightarrow> currentPlayer g = playerIndex \<Longrightarrow>
                 \<exists>states. infoSets (infoSetStr g) = Some states
                   \<and> (\<forall>i<length states. fst (states ! i) \<in> S \<and> \<not> isGameOver (fst (states ! i))
                          \<and> size (fst (states ! i)) \<le> size g
                          \<and> actionNum g \<le> actionNum (fst (states ! i)))"
    and "game \<in> S" and "size game \<le> fuel"
  shows "\<exists>v brs'. CalculateBestResponseValue fuel game playerIndex strategies brs po infoSets
                    = Inr (v, brs')"
  using assms(3,4)
proof (induction fuel arbitrary: game brs po)
  case 0
  with size_game_pos[of game] show ?case by simp
next
  case (Suc fuel)
  have kid: "\<exists>v b'. CalculateBestResponseValue fuel (takeAction g a) playerIndex strategies b q infoSets
                      = Inr (v, b')"
    if "g \<in> S" "\<not> isGameOver g" "a < actionNum g" "size g \<le> Suc fuel" for g a b q
  proof (rule Suc.IH)
    show "takeAction g a \<in> S" by (rule closed[OF that(1,2,3)])
    from size_takeAction[OF that(3)] that(4) show "size (takeAction g a) \<le> fuel" by simp
  qed
  have step: "m \<subseteq>\<^sub>m b'"
    if "CalculateBestResponseValue fuel g playerIndex strategies b q infoSets = Inr (u, b')"
      and "m \<subseteq>\<^sub>m b" for g b q u b' m
    using CalculateBestResponseValue_memo[OF that(1)] that(2) by (rule map_le_trans[rotated])
  show ?case
  proof (cases "isGameOver game")
    case True
    then show ?thesis by (simp add: CalculateBestResponseValue_terminal)
  next
    case over: False
    show ?thesis
    proof (cases "isChanceNode game")
      case True
      have "\<exists>r. for_loop (actionNum game)
         (\<lambda>a (nodeUtil, b).
            case CalculateBestResponseValue fuel (takeAction game a) playerIndex strategies b
                      (po * chanceProbability (takeAction game a)) infoSets of
                 Inl e \<Rightarrow> Inl e
               | Inr (v, b') \<Rightarrow> Inr (nodeUtil + chanceProbability (takeAction game a) * v, b'))
         (0, brs) = Inr r \<and> True"
      proof (rule for_loop_returns)
        fix a and s :: "real \<times> (string \<rightharpoonup> real list)"
        assume a: "a < actionNum game"
        from kid[OF Suc.prems(1) over a Suc.prems(2)] obtain v b' where
          "CalculateBestResponseValue fuel (takeAction game a) playerIndex strategies (snd s)
             (po * chanceProbability (takeAction game a)) infoSets = Inr (v, b')"
          by blast
        then show "\<exists>s'. (case s of (nodeUtil, b) \<Rightarrow>
            case CalculateBestResponseValue fuel (takeAction game a) playerIndex strategies b
                      (po * chanceProbability (takeAction game a)) infoSets of
                 Inl e \<Rightarrow> Inl e
               | Inr (v, b') \<Rightarrow> Inr (nodeUtil + chanceProbability (takeAction game a) * v, b')) = Inr s' \<and> True"
          by (simp add: case_prod_unfold)
      qed simp
      then show ?thesis
        unfolding CalculateBestResponseValue_chance_unfold[OF over True] by auto
    next
      case chance: False
      show ?thesis
      proof (cases "currentPlayer game = playerIndex")
        case False
        have "\<exists>r. for_loop (actionNum game)
           (\<lambda>a (nodeUtil, b).
              case CalculateBestResponseValue fuel (takeAction game a) playerIndex strategies b
                        (po * ((strategies ! currentPlayer game) game ! a)) infoSets of
                   Inl e \<Rightarrow> Inl e
                 | Inr (v, b') \<Rightarrow> Inr (nodeUtil + (strategies ! currentPlayer game) game ! a * v, b'))
           (0, brs) = Inr r \<and> True"
        proof (rule for_loop_returns)
          fix a and s :: "real \<times> (string \<rightharpoonup> real list)"
          assume a: "a < actionNum game"
          from kid[OF Suc.prems(1) over a Suc.prems(2)] obtain v b' where
            "CalculateBestResponseValue fuel (takeAction game a) playerIndex strategies (snd s)
               (po * ((strategies ! currentPlayer game) game ! a)) infoSets = Inr (v, b')"
            by blast
          then show "\<exists>s'. (case s of (nodeUtil, b) \<Rightarrow>
              case CalculateBestResponseValue fuel (takeAction game a) playerIndex strategies b
                        (po * ((strategies ! currentPlayer game) game ! a)) infoSets of
                   Inl e \<Rightarrow> Inl e
                 | Inr (v, b') \<Rightarrow> Inr (nodeUtil + (strategies ! currentPlayer game) game ! a * v, b')) = Inr s' \<and> True"
            by (simp add: case_prod_unfold)
        qed simp
        then show ?thesis
          unfolding CalculateBestResponseValue_other_unfold[OF over chance False] by auto
      next
        case True
        let ?n = "actionNum game"
        let ?key = "infoSetStr game"
        let ?inner = "\<lambda>states i. for_loop ?n
                             (\<lambda>a (actionValues, b).
                                if a < actionNum (fst (states ! i)) then
                                  (case CalculateBestResponseValue fuel
                                          (takeAction (fst (states ! i)) a) playerIndex strategies b
                                          (snd (states ! i)) infoSets of
                                     Inl e \<Rightarrow> Inl e
                                   | Inr (v, b') \<Rightarrow>
                                       Inr (actionValues[a := actionValues ! a + snd (states ! i) * v], b'))
                                else Inl (Thrown IllFormed))"
        let ?first = "(if brs ?key = None then
             (case infoSets ?key of
                None \<Rightarrow> Inl (Thrown OutOfRange)
              | Some states \<Rightarrow>
                  (case for_loop (length states) (?inner states) (replicate ?n 0, brs) of
                     Inl e \<Rightarrow> Inl e
                   | Inr (actionValues, b) \<Rightarrow>
                       Inr (b(?key \<mapsto> (replicate ?n 0)[argmax_loop actionValues ?n := 1]))))
           else Inr brs)"
        let ?body = "\<lambda>a (utils, b).
                    case CalculateBestResponseValue fuel (takeAction game a) playerIndex
                             strategies b po infoSets of
                      Inl e \<Rightarrow> Inl e
                    | Inr (v, b') \<Rightarrow> Inr (utils @ [v :: real], b')"
        from stored[OF Suc.prems(1) over chance True] obtain states where
          states: "infoSets ?key = Some states"
          and each: "\<forall>i<length states. fst (states ! i) \<in> S \<and> \<not> isGameOver (fst (states ! i))
                          \<and> size (fst (states ! i)) \<le> size game
                          \<and> ?n \<le> actionNum (fst (states ! i))"
          by blast
        have first: "\<exists>brs1 bs. ?first = Inr brs1 \<and> brs1 ?key = Some bs"
        proof (cases "brs ?key = None")
          case False
          then show ?thesis by auto
        next
          case new: True
          have "\<exists>r. for_loop (length states) (?inner states) (replicate ?n 0, brs) = Inr r \<and> True"
          proof (rule for_loop_returns)
            fix i and s :: "real list \<times> (string \<rightharpoonup> real list)"
            assume i: "i < length states"
            with each have g': "fst (states ! i) \<in> S" "\<not> isGameOver (fst (states ! i))"
              "size (fst (states ! i)) \<le> size game" "?n \<le> actionNum (fst (states ! i))"
              by simp_all
            have "\<exists>r. ?inner states i s = Inr r \<and> True"
            proof (rule for_loop_returns)
              fix a and t :: "real list \<times> (string \<rightharpoonup> real list)"
              assume "a < ?n"
              with g'(4) have a: "a < actionNum (fst (states ! i))" by simp
              from g'(3) Suc.prems(2) have sz: "size (fst (states ! i)) \<le> Suc fuel" by simp
              from kid[OF g'(1,2) a sz] obtain v b' where
                "CalculateBestResponseValue fuel (takeAction (fst (states ! i)) a) playerIndex
                   strategies (snd t) (snd (states ! i)) infoSets = Inr (v, b')"
                by blast
              with a show "\<exists>s'. (case t of (actionValues, b) \<Rightarrow>
                                if a < actionNum (fst (states ! i)) then
                                  (case CalculateBestResponseValue fuel
                                          (takeAction (fst (states ! i)) a) playerIndex strategies b
                                          (snd (states ! i)) infoSets of
                                     Inl e \<Rightarrow> Inl e
                                   | Inr (v, b') \<Rightarrow>
                                       Inr (actionValues[a := actionValues ! a + snd (states ! i) * v], b'))
                                else Inl (Thrown IllFormed)) = Inr s' \<and> True"
                by (simp add: case_prod_unfold)
            qed simp
            then show "\<exists>s'. ?inner states i s = Inr s' \<and> True" .
          qed simp
          then obtain av b where
            "for_loop (length states) (?inner states) (replicate ?n 0, brs) = Inr (av, b)"
            by auto
          with new states show ?thesis by simp
        qed
        then obtain brs1 bs1 where first: "?first = Inr brs1" and has: "brs1 ?key = Some bs1"
          by blast
        have "\<exists>r. for_loop ?n ?body ([], brs1) = Inr r \<and> brs1 \<subseteq>\<^sub>m snd r"
        proof (rule for_loop_returns)
          show "brs1 \<subseteq>\<^sub>m snd ([] :: real list, brs1)" by simp
        next
          fix a and s :: "real list \<times> (string \<rightharpoonup> real list)"
          assume a: "a < ?n" and P: "brs1 \<subseteq>\<^sub>m snd s"
          from kid[OF Suc.prems(1) over a Suc.prems(2)] obtain v b' where
            c: "CalculateBestResponseValue fuel (takeAction game a) playerIndex strategies (snd s)
               po infoSets = Inr (v, b')"
            by blast
          from step[OF c P] have "brs1 \<subseteq>\<^sub>m b'" .
          with c show "\<exists>s'. ?body a s = Inr s' \<and> brs1 \<subseteq>\<^sub>m snd s'"
            by (simp add: case_prod_unfold)
        qed
        then obtain utils brs2 where loop: "for_loop ?n ?body ([], brs1) = Inr (utils, brs2)"
          and later: "brs1 \<subseteq>\<^sub>m brs2"
          by auto
        from later has have "brs2 ?key = Some bs1" by (auto simp: map_le_def dom_def)
        then show ?thesis
          unfolding CalculateBestResponseValue_actor_unfold[OF over chance True] first
          using loop by simp
      qed
    qed
  qed
qed

lemma example_best_response_returns:
  "\<exists>v brs'. CalculateBestResponseValue (size state_A) state_A 0 strategies brs po example_infoSets
              = Inr (v, brs')"
proof (rule CalculateBestResponseValue_returns[where
         S = "{state_A, state_B, leaf [2, - 2], leaf [0, 0], leaf [- 1, 1], leaf [1, - 1]}"])
  fix g a
  assume "g \<in> {state_A, state_B, leaf [2, - 2], leaf [0, 0], leaf [- 1, 1], leaf [1, - 1]}"
    and "\<not> isGameOver g" and "a < actionNum g"
  then show "takeAction g a \<in> {state_A, state_B, leaf [2, - 2], leaf [0, 0], leaf [- 1, 1], leaf [1, - 1]}"
    by (auto simp: state_A_def state_B_def less_Suc_eq)
next
  fix g
  assume "g \<in> {state_A, state_B, leaf [2, - 2], leaf [0, 0], leaf [- 1, 1], leaf [1, - 1]}"
    and "\<not> isGameOver g"
  then have g: "g = state_A \<or> g = state_B" by auto
  have sz: "size state_B = size state_A"
    by (simp add: state_A_def state_B_def decision_def leaf_def)
  have "\<forall>i<length [(state_A, 1 / 2 :: real), (state_B, 1 / 2)].
            fst ([(state_A, 1 / 2 :: real), (state_B, 1 / 2)] ! i)
              \<in> {state_A, state_B, leaf [2, - 2], leaf [0, 0], leaf [- 1, 1], leaf [1, - 1]}
          \<and> \<not> isGameOver (fst ([(state_A, 1 / 2 :: real), (state_B, 1 / 2)] ! i))
          \<and> size (fst ([(state_A, 1 / 2 :: real), (state_B, 1 / 2)] ! i)) \<le> size g
          \<and> actionNum g \<le> actionNum (fst ([(state_A, 1 / 2 :: real), (state_B, 1 / 2)] ! i))"
    using g sz by (auto simp: less_Suc_eq) (simp_all add: state_A_def state_B_def)
  moreover have "example_infoSets (infoSetStr g) = Some [(state_A, 1 / 2), (state_B, 1 / 2)]"
    using g by (auto simp: example_infoSets_def) (simp_all add: state_A_def state_B_def)
  ultimately show "\<exists>states. example_infoSets (infoSetStr g) = Some states
                   \<and> (\<forall>i<length states. fst (states ! i)
                          \<in> {state_A, state_B, leaf [2, - 2], leaf [0, 0], leaf [- 1, 1], leaf [1, - 1]}
                          \<and> \<not> isGameOver (fst (states ! i))
                          \<and> size (fst (states ! i)) \<le> size g
                          \<and> actionNum g \<le> actionNum (fst (states ! i)))"
    by blast
qed simp_all

end
